theory Spec2Isabelle
  imports
    Main
    "HOL-Library.Char_ord"
    "HOL-Library.List_Lexorder"
    "HOL-Library.Product_Lexorder"
    "HOL-Library.Multiset"
begin

section \<open>The schedule pipeline of \<^verbatim>\<open>scripts/scrape_unisport.py\<close>\<close>

text \<open>
  The development embeds the text-to-schedule part of the scraper: the two field
  normalisers \<^verbatim>\<open>parse_time_range\<close> and \<^verbatim>\<open>parse_dateinfo\<close>, the date helpers
  \<^verbatim>\<open>next_date_for_weekday\<close> and \<^verbatim>\<open>daterange_weekly\<close>, and \<^verbatim>\<open>build_events\<close>.

  Conventions of the model.
  \<^item> A Python \<^verbatim>\<open>str\<close> is a \<^typ>\<open>string\<close>; a \<^typ>\<open>char\<close> stands for the code point of the
    same number, so the model covers the strings whose code points are below 256. The
    character classes \<^verbatim>\<open>\s\<close>, \<^verbatim>\<open>\d\<close>, \<^verbatim>\<open>\w\<close> and the letters matched under
    \<^verbatim>\<open>re.IGNORECASE\<close> are the ones Python has on that range.
  \<^item> Every exception the code can raise is a value: a function that can raise returns
    \<open>py_error + 'a\<close>, with \<open>Inl\<close> for the exception.
  \<^item> \<^verbatim>\<open>date.today()\<close> and the module constant \<^verbatim>\<open>PHASE_LOOKAHEAD_DAYS\<close> (read from
    the environment at import) are parameters \<open>today\<close> and \<open>lookahead\<close>.
\<close>

datatype py_error = ValueError | OverflowError

subsection \<open>Characters and the helpers of the \<^verbatim>\<open>re\<close> patterns\<close>

text \<open>\<^verbatim>\<open>\s\<close> and \<^verbatim>\<open>str.isspace\<close> on code points below 256: TAB..CR, FS..US, space,
  NEL (0x85) and NBSP (0xA0).\<close>

definition is_space :: "char \<Rightarrow> bool" where
  "is_space c =
     (let n = (of_char c :: nat)
      in (9 \<le> n \<and> n \<le> 13) \<or> (28 \<le> n \<and> n \<le> 32) \<or> n = 133 \<or> n = 160)"

text \<open>\<^verbatim>\<open>\d\<close> on code points below 256: the ten ASCII digits.\<close>

definition is_digit :: "char \<Rightarrow> bool" where
  "is_digit c = (let n = (of_char c :: nat) in 48 \<le> n \<and> n \<le> 57)"

text \<open>\<^verbatim>\<open>\w\<close> on code points below 256: what \<^verbatim>\<open>str.isalnum\<close> accepts, and the underscore.\<close>

definition is_word :: "char \<Rightarrow> bool" where
  "is_word c =
     (let n = (of_char c :: nat)
      in (48 \<le> n \<and> n \<le> 57) \<or> (65 \<le> n \<and> n \<le> 90) \<or> n = 95 \<or> (97 \<le> n \<and> n \<le> 122)
         \<or> n = 170 \<or> n = 178 \<or> n = 179 \<or> n = 181 \<or> n = 185 \<or> n = 186
         \<or> (188 \<le> n \<and> n \<le> 190) \<or> (192 \<le> n \<and> n \<le> 214) \<or> (216 \<le> n \<and> n \<le> 246)
         \<or> 248 \<le> n)"

text \<open>Under \<^verbatim>\<open>re.IGNORECASE\<close> an ASCII letter of a pattern matches its two ASCII cases and
  no other code point below 256; \<open>lower\<close> folds the upper-case ASCII letters.\<close>

definition lower :: "char \<Rightarrow> char" where
  "lower c =
     (let n = (of_char c :: nat) in if 65 \<le> n \<and> n \<le> 90 then char_of (n + 32) else c)"

text \<open>A literal word of a pattern compiled with \<^verbatim>\<open>re.IGNORECASE\<close>, at the head of the text:
  the rest of the text after it.\<close>

definition literal_i :: "string \<Rightarrow> string \<Rightarrow> string option" where
  "literal_i w s =
     (if map lower (take (length w) s) = w then Some (drop (length w) s) else None)"

text \<open>\<^verbatim>\<open>\s*\<close> is greedy, and in every pattern below the next item is not a white-space
  character, so it consumes the whole run.\<close>

definition skip_ws :: "string \<Rightarrow> string" where
  "skip_ws s = dropWhile is_space s"

text \<open>\<^verbatim>\<open>\s*$\<close>: the rest of the text is white space (a final newline is white space too).\<close>

definition ws_to_end :: "string \<Rightarrow> bool" where
  "ws_to_end s = list_all is_space s"

text \<open>\<^verbatim>\<open>int(s)\<close> on a string of ASCII digits, the only strings it is called on.\<close>

definition digit_val :: "char \<Rightarrow> int" where
  "digit_val c = int (of_char c) - 48"

definition int_of_digits :: "string \<Rightarrow> int" where
  "int_of_digits s = foldl (\<lambda>a c. 10 * a + digit_val c) 0 s"

text \<open>\<^verbatim>\<open>s.split(sep)\<close> for a one-character separator.\<close>

fun split_on :: "char \<Rightarrow> string \<Rightarrow> string list" where
  "split_on sep [] = [[]]"
| "split_on sep (c # cs) =
     (if c = sep then [] # split_on sep cs
      else (case split_on sep cs of
              [] \<Rightarrow> [[c]]
            | w # ws \<Rightarrow> (c # w) # ws))"

subsection \<open>\<^verbatim>\<open>normalize_space\<close>\<close>

text \<open>\<^verbatim>\<open>re.sub(r"\s+", " ", s)\<close>: every maximal run of white space becomes one space.\<close>

function sub_ws :: "string \<Rightarrow> string" where
  "sub_ws [] = []"
| "sub_ws (c # cs) =
     (if is_space c then CHR '' '' # sub_ws (dropWhile is_space cs) else c # sub_ws cs)"
  by pat_completeness auto
termination
  by (relation "measure length") (auto simp: length_dropWhile_le le_imp_less_Suc)

text \<open>\<^verbatim>\<open>str.strip()\<close>: leading and trailing white space removed.\<close>

definition strip :: "string \<Rightarrow> string" where
  "strip s = rev (dropWhile is_space (rev (dropWhile is_space s)))"

definition normalize_space :: "string \<Rightarrow> string" where
  "normalize_space s = strip (sub_ws s)"

subsection \<open>The patterns\<close>

text \<open>Each pattern is a function from the text to the captured groups, \<open>None\<close> when
  \<^verbatim>\<open>re.match\<close> returns no match.\<close>

text \<open>\<^verbatim>\<open>\d{2}\.\d{2}\<close> as a whole string.\<close>

fun is_dm :: "string \<Rightarrow> bool" where
  "is_dm [d1, d2, p, m1, m2] =
     (is_digit d1 \<and> is_digit d2 \<and> p = CHR ''.'' \<and> is_digit m1 \<and> is_digit m2)"
| "is_dm _ = False"

text \<open>\<^verbatim>\<open>\d{2}\.\d{2}\.\d{4}\<close> as a whole string.\<close>

definition is_dmy :: "string \<Rightarrow> bool" where
  "is_dmy s =
     (length s = 10 \<and> is_dm (take 5 s) \<and> s ! 5 = CHR ''.'' \<and> list_all is_digit (drop 6 s))"

text \<open>\<^verbatim>\<open>DATE_SINGLE_RE = ^\s*(\d{2}\.\d{2}\.\d{4})\s*$\<close>\<close>

definition DATE_SINGLE_RE :: "string \<Rightarrow> string option" where
  "DATE_SINGLE_RE s =
     (let t = skip_ws s
      in if is_dmy (take 10 t) \<and> ws_to_end (drop 10 t) then Some (take 10 t) else None)"

text \<open>\<^verbatim>\<open>DATE_RANGE_RE = ^\s*(\d{2}\.\d{2})\.\s*-\s*(\d{2}\.\d{2}\.\d{4})\s*$\<close>\<close>

definition DATE_RANGE_RE :: "string \<Rightarrow> (string \<times> string) option" where
  "DATE_RANGE_RE s =
     (let t = skip_ws s
      in if is_dm (take 5 t) then
           (case drop 5 t of
              [] \<Rightarrow> None
            | p # u \<Rightarrow>
                if p = CHR ''.'' then
                  (case skip_ws u of
                     [] \<Rightarrow> None
                   | q # v \<Rightarrow>
                       if q = CHR ''-'' then
                         (let w = skip_ws v
                          in if is_dmy (take 10 w) \<and> ws_to_end (drop 10 w)
                             then Some (take 5 t, take 10 w) else None)
                       else None)
                else None)
         else None)"

text \<open>\<^verbatim>\<open>PHASE_RE = ^\s*Phase\b\<close>, case-insensitive: after the word the text ends or goes on
  with a character that is not a word character.\<close>

definition PHASE_RE :: "string \<Rightarrow> bool" where
  "PHASE_RE s =
     (case literal_i ''phase'' (skip_ws s) of
        None \<Rightarrow> False
      | Some r \<Rightarrow> (case r of [] \<Rightarrow> True | c # _ \<Rightarrow> \<not> is_word c))"

text \<open>\<^verbatim>\<open>\d{1,2}:\d{2}\<close> at the head of the text: the group and the rest. The hour takes two
  digits when there are two; giving one back cannot help, since a colon must follow.\<close>

definition colon_mm :: "string \<Rightarrow> string \<Rightarrow> (string \<times> string) option" where
  "colon_mm h s =
     (case s of
        c # m1 # m2 # r \<Rightarrow>
          if c = CHR '':'' \<and> is_digit m1 \<and> is_digit m2 then Some (h @ [c, m1, m2], r) else None
      | _ \<Rightarrow> None)"

definition hhmm :: "string \<Rightarrow> (string \<times> string) option" where
  "hhmm s =
     (case s of
        a # b # r \<Rightarrow>
          if is_digit a \<and> is_digit b then colon_mm [a, b] r
          else if is_digit a then colon_mm [a] (b # r)
          else None
      | _ \<Rightarrow> None)"

text \<open>\<^verbatim>\<open>TIME_RE = ^\s*(\d{1,2}:\d{2})\s*-\s*(\d{1,2}:\d{2})\s*Uhr\s*$\<close>, case-insensitive.\<close>

definition TIME_RE :: "string \<Rightarrow> (string \<times> string) option" where
  "TIME_RE s =
     (case hhmm (skip_ws s) of
        None \<Rightarrow> None
      | Some (g1, u) \<Rightarrow>
          (case skip_ws u of
             [] \<Rightarrow> None
           | q # v \<Rightarrow>
               if q = CHR ''-'' then
                 (case hhmm (skip_ws v) of
                    None \<Rightarrow> None
                  | Some (g2, w) \<Rightarrow>
                      (case literal_i ''uhr'' (skip_ws w) of
                         None \<Rightarrow> None
                       | Some r \<Rightarrow> if ws_to_end r then Some (g1, g2) else None))
               else None))"

text \<open>\<^verbatim>\<open>ALLDAY_RE = ^\s*ganzer\s+Tag\s*$\<close>, case-insensitive.\<close>

definition ALLDAY_RE :: "string \<Rightarrow> bool" where
  "ALLDAY_RE s =
     (case literal_i ''ganzer'' (skip_ws s) of
        None \<Rightarrow> False
      | Some r \<Rightarrow>
          (case r of
             [] \<Rightarrow> False
           | c # _ \<Rightarrow>
               is_space c \<and>
               (case literal_i ''tag'' (skip_ws r) of
                  None \<Rightarrow> False
                | Some e \<Rightarrow> ws_to_end e)))"

subsection \<open>Clock times and \<^verbatim>\<open>parse_time_range\<close>\<close>

record time =
  hour :: int
  minute :: int

text \<open>The constructor \<^verbatim>\<open>time(h, m)\<close> raises \<^verbatim>\<open>ValueError\<close> outside 0..23 and 0..59.\<close>

definition mk_time :: "int \<Rightarrow> int \<Rightarrow> py_error + time" where
  "mk_time h m =
     (if 0 \<le> h \<and> h \<le> 23 \<and> 0 \<le> m \<and> m \<le> 59 then Inr \<lparr>hour = h, minute = m\<rparr>
      else Inl ValueError)"

text \<open>\<^verbatim>\<open>h, m = map(int, s.split(":"))\<close> followed by \<^verbatim>\<open>time(h, m)\<close>; unpacking anything but
  two values is a \<^verbatim>\<open>ValueError\<close> too.\<close>

definition time_of_group :: "string \<Rightarrow> py_error + time" where
  "time_of_group g =
     (case split_on CHR '':'' g of
        [h, m] \<Rightarrow> mk_time (int_of_digits h) (int_of_digits m)
      | _ \<Rightarrow> Inl ValueError)"

text \<open>The values the constructor accepts.\<close>

definition valid_time :: "time \<Rightarrow> bool" where
  "valid_time t = (0 \<le> hour t \<and> hour t \<le> 23 \<and> 0 \<le> minute t \<and> minute t \<le> 59)"

type_synonym time_range = "time option \<times> time option \<times> bool"

definition parse_time_range :: "string \<Rightarrow> py_error + time_range" where
  "parse_time_range time_str =
     (let t = normalize_space time_str
      in if ALLDAY_RE t then Inr (None, None, True)
         else (case TIME_RE t of
                 None \<Rightarrow> Inr (None, None, False)
               | Some (start_s, end_s) \<Rightarrow>
                   (case time_of_group start_s of
                      Inl e \<Rightarrow> Inl e
                    | Inr st \<Rightarrow>
                        (case time_of_group end_s of
                           Inl e \<Rightarrow> Inl e
                         | Inr en \<Rightarrow> Inr (Some st, Some en, False)))))"

subsection \<open>The library's calendar: \<^verbatim>\<open>date\<close>, \<^verbatim>\<open>timedelta\<close>, \<^verbatim>\<open>strptime\<close>, \<^verbatim>\<open>isoformat\<close>\<close>

text \<open>
  A \<^verbatim>\<open>date\<close> is represented by its proleptic Gregorian ordinal \<^verbatim>\<open>date.toordinal()\<close>
  (1 is 0001-01-01, 3652059 is 9999-12-31). The library defines \<^verbatim>\<open>weekday()\<close> and the
  sum with a \<^verbatim>\<open>timedelta\<close> through the ordinal, and the order of dates is the order
  of their ordinals. Year, month and day are read off the ordinal by \<open>ord2ymd\<close>, and a
  date is built from them by \<open>ymd2ord\<close>; both follow the library's reference
  implementation.
\<close>

type_synonym date = int

definition MAXORDINAL :: int where
  "MAXORDINAL = 3652059"

definition valid_date :: "date \<Rightarrow> bool" where
  "valid_date d = (1 \<le> d \<and> d \<le> MAXORDINAL)"

definition DAYS_IN_MONTH :: "int list" where
  "DAYS_IN_MONTH = [-1, 31, 28, 31, 30, 31, 30, 31, 31, 30, 31, 30, 31]"

definition DAYS_BEFORE_MONTH :: "int list" where
  "DAYS_BEFORE_MONTH = [-1, 0, 31, 59, 90, 120, 151, 181, 212, 243, 273, 304, 334]"

definition is_leap :: "int \<Rightarrow> bool" where
  "is_leap year = (year mod 4 = 0 \<and> (year mod 100 \<noteq> 0 \<or> year mod 400 = 0))"

definition days_before_year :: "int \<Rightarrow> int" where
  "days_before_year year =
     (let y = year - 1 in y * 365 + y div 4 - y div 100 + y div 400)"

definition days_in_month :: "int \<Rightarrow> int \<Rightarrow> int" where
  "days_in_month year month =
     (if month = 2 \<and> is_leap year then 29 else DAYS_IN_MONTH ! nat month)"

definition days_before_month :: "int \<Rightarrow> int \<Rightarrow> int" where
  "days_before_month year month =
     DAYS_BEFORE_MONTH ! nat month + (if month > 2 \<and> is_leap year then 1 else 0)"

definition ymd2ord :: "int \<Rightarrow> int \<Rightarrow> int \<Rightarrow> int" where
  "ymd2ord year month day = days_before_year year + days_before_month year month + day"

definition ord2ymd :: "int \<Rightarrow> int \<times> int \<times> int" where
  "ord2ymd ordinal =
     (let n = ordinal - 1;
          n400 = n div 146097; r400 = n mod 146097;
          n100 = r400 div 36524; r100 = r400 mod 36524;
          n4 = r100 div 1461; r4 = r100 mod 1461;
          n1 = r4 div 365; r1 = r4 mod 365;
          year = n400 * 400 + 1 + n100 * 100 + n4 * 4 + n1
      in if n1 = 4 \<or> n100 = 4 then (year - 1, 12, 31)
         else
           (let leapyear = (n1 = 3 \<and> (n4 \<noteq> 24 \<or> n100 = 3));
                month = (r1 + 50) div 32;
                preceding = DAYS_BEFORE_MONTH ! nat month
                              + (if month > 2 \<and> leapyear then 1 else 0)
            in if preceding > r1 then
                 (let month' = month - 1;
                      preceding' = preceding
                         - (DAYS_IN_MONTH ! nat month'
                            + (if month' = 2 \<and> leapyear then 1 else 0))
                  in (year, month', r1 - preceding' + 1))
               else (year, month, r1 - preceding + 1)))"

definition year :: "date \<Rightarrow> int" where
  "year d = fst (ord2ymd d)"

definition month :: "date \<Rightarrow> int" where
  "month d = fst (snd (ord2ymd d))"

definition day :: "date \<Rightarrow> int" where
  "day d = snd (snd (ord2ymd d))"

text \<open>The constructor \<^verbatim>\<open>date(year, month, day)\<close>: \<^verbatim>\<open>ValueError\<close> unless the year is in
  1..9999, the month in 1..12 and the day in the month.\<close>

definition mk_date :: "int \<Rightarrow> int \<Rightarrow> int \<Rightarrow> py_error + date" where
  "mk_date y m d =
     (if 1 \<le> y \<and> y \<le> 9999 \<and> 1 \<le> m \<and> m \<le> 12 \<and> 1 \<le> d \<and> d \<le> days_in_month y m
      then Inr (ymd2ord y m d) else Inl ValueError)"

text \<open>\<^verbatim>\<open>d.weekday()\<close>: Monday is 0.\<close>

definition weekday :: "date \<Rightarrow> int" where
  "weekday d = (d + 6) mod 7"

text \<open>\<^verbatim>\<open>timedelta(days=n)\<close>, as its number of days: \<^verbatim>\<open>OverflowError\<close> beyond 999999999
  days either way.\<close>

definition timedelta :: "int \<Rightarrow> py_error + int" where
  "timedelta n = (if \<bar>n\<bar> \<le> 999999999 then Inr n else Inl OverflowError)"

text \<open>\<^verbatim>\<open>d + timedelta(days=n)\<close>: \<^verbatim>\<open>OverflowError\<close> when the result is not a date.\<close>

definition date_add :: "date \<Rightarrow> int \<Rightarrow> py_error + date" where
  "date_add d n =
     (case timedelta n of
        Inl e \<Rightarrow> Inl e
      | Inr k \<Rightarrow> (let ordinal = d + k
                  in if 0 < ordinal \<and> ordinal \<le> MAXORDINAL then Inr ordinal
                     else Inl OverflowError))"

text \<open>\<^verbatim>\<open>str(n)\<close> for a natural number, and \<^verbatim>\<open>"%0wd" % n\<close>.\<close>

fun str_nat :: "nat \<Rightarrow> string" where
  "str_nat n =
     (if n < 10 then [char_of (48 + n)]
      else str_nat (n div 10) @ [char_of (48 + n mod 10)])"

declare str_nat.simps [simp del]

definition zero_pad :: "nat \<Rightarrow> int \<Rightarrow> string" where
  "zero_pad w n =
     (let s = str_nat (nat n) in replicate (w - length s) CHR ''0'' @ s)"

text \<open>\<^verbatim>\<open>date.isoformat()\<close> is \<^verbatim>\<open>"%04d-%02d-%02d"\<close> of year, month and day.\<close>

definition isoformat :: "date \<Rightarrow> string" where
  "isoformat d =
     (case ord2ymd d of
        (y, m, dd) \<Rightarrow> zero_pad 4 y @ ''-'' @ zero_pad 2 m @ ''-'' @ zero_pad 2 dd)"

text \<open>\<^verbatim>\<open>datetime.combine(d, t).isoformat()\<close>; seconds are zero, microseconds absent.\<close>

definition datetime_isoformat :: "date \<Rightarrow> time \<Rightarrow> string" where
  "datetime_isoformat d t =
     isoformat d @ ''T'' @ zero_pad 2 (hour t) @ '':'' @ zero_pad 2 (minute t) @ '':00''"

text \<open>
  \<^verbatim>\<open>datetime.strptime(s, "%d.%m.%Y").date()\<close>. The library matches the whole text against
  \<^verbatim>\<open>(3[0-1]|[1-2]\d|0[1-9]|[1-9]| [1-9])\.(1[0-2]|0[1-9]|[1-9])\.(\d\d\d\d)\<close>; no field
  can hold a dot, so the text matches exactly when it splits at the dots into three
  fields of these shapes. It then builds the date, and every failure is a
  \<^verbatim>\<open>ValueError\<close>.
\<close>

fun day_field :: "string \<Rightarrow> bool" where
  "day_field [a, b] =
     ((a = CHR ''3'' \<and> (b = CHR ''0'' \<or> b = CHR ''1''))
      \<or> ((a = CHR ''1'' \<or> a = CHR ''2'') \<and> is_digit b)
      \<or> (a = CHR ''0'' \<and> is_digit b \<and> b \<noteq> CHR ''0'')
      \<or> (a = CHR '' '' \<and> is_digit b \<and> b \<noteq> CHR ''0''))"
| "day_field [a] = (is_digit a \<and> a \<noteq> CHR ''0'')"
| "day_field _ = False"

fun month_field :: "string \<Rightarrow> bool" where
  "month_field [a, b] =
     ((a = CHR ''1'' \<and> (b = CHR ''0'' \<or> b = CHR ''1'' \<or> b = CHR ''2''))
      \<or> (a = CHR ''0'' \<and> is_digit b \<and> b \<noteq> CHR ''0''))"
| "month_field [a] = (is_digit a \<and> a \<noteq> CHR ''0'')"
| "month_field _ = False"

definition year_field :: "string \<Rightarrow> bool" where
  "year_field s = (length s = 4 \<and> list_all is_digit s)"

definition strptime_dmy :: "string \<Rightarrow> py_error + date" where
  "strptime_dmy s =
     (case split_on CHR ''.'' s of
        [d, m, y] \<Rightarrow>
          if day_field d \<and> month_field m \<and> year_field y
          then mk_date (int_of_digits y) (int_of_digits m) (int_of_digits (skip_ws d))
          else Inl ValueError
      | _ \<Rightarrow> Inl ValueError)"

subsection \<open>\<^verbatim>\<open>parse_dateinfo\<close>\<close>

text \<open>The result triples \<^verbatim>\<open>("single", d, None)\<close>, \<^verbatim>\<open>("range", start_d, end_d)\<close> and
  \<^verbatim>\<open>("phase", None, None)\<close>; the range kind is named \<open>DateRange\<close>.\<close>

datatype date_info = Single date | DateRange date date | Phase

definition parse_dateinfo :: "string \<Rightarrow> py_error + date_info" where
  "parse_dateinfo dateinfo_str =
     (let di = normalize_space dateinfo_str
      in case DATE_SINGLE_RE di of
           Some g \<Rightarrow>
             (case strptime_dmy g of
                Inl e \<Rightarrow> Inl e
              | Inr d \<Rightarrow> Inr (Single d))
         | None \<Rightarrow>
             (case DATE_RANGE_RE di of
                Some (start_dm, end_dmy) \<Rightarrow>
                  (case strptime_dmy end_dmy of
                     Inl e \<Rightarrow> Inl e
                   | Inr end_d \<Rightarrow>
                       (case strptime_dmy (start_dm @ ''.'' @ str_nat (nat (year end_d))) of
                          Inl e \<Rightarrow> Inl e
                        | Inr start_d \<Rightarrow> Inr (DateRange start_d end_d)))
              | None \<Rightarrow> if PHASE_RE di then Inr Phase else Inr Phase))"

subsection \<open>\<^verbatim>\<open>next_date_for_weekday\<close> and \<^verbatim>\<open>daterange_weekly\<close>\<close>

definition next_date_for_weekday :: "date \<Rightarrow> int \<Rightarrow> py_error + date" where
  "next_date_for_weekday from_date weekday_idx =
     (let delta = (weekday_idx - weekday from_date) mod 7 in date_add from_date delta)"

text \<open>The loop \<^verbatim>\<open>while d <= end: out.append(d); d += timedelta(days=7)\<close>, with the list
  \<open>out\<close> as its state.\<close>

function weekly_loop :: "date \<Rightarrow> date \<Rightarrow> date list \<Rightarrow> py_error + date list" where
  "weekly_loop d end_d out =
     (if d \<le> end_d then
        (case date_add d 7 of
           Inl e \<Rightarrow> Inl e
         | Inr d' \<Rightarrow> weekly_loop d' end_d (out @ [d]))
      else Inr out)"
  by pat_completeness auto
termination
  by (relation "measure (\<lambda>(d, end_d, out). nat (end_d + 1 - d))")
     (auto simp: date_add_def timedelta_def Let_def split: if_splits)

declare weekly_loop.simps [simp del]

definition daterange_weekly :: "date \<Rightarrow> date \<Rightarrow> int \<Rightarrow> py_error + date list" where
  "daterange_weekly start end_d weekday_idx =
     (case next_date_for_weekday start weekday_idx of
        Inl e \<Rightarrow> Inl e
      | Inr first0 \<Rightarrow>
          (if first0 < start then
             (case date_add first0 7 of
                Inl e \<Rightarrow> Inl e
              | Inr first \<Rightarrow> weekly_loop first end_d [])
           else weekly_loop first0 end_d []))"

subsection \<open>Rows, events and \<^verbatim>\<open>build_events\<close>\<close>

record RawRow =
  title :: string
  href :: "string option"
  dow :: string
  time_str :: string
  dateinfo :: string
  location :: string
  rest :: string

text \<open>The dictionary under \<^verbatim>\<open>"extendedProps"\<close>, and the event dictionary with its keys
  \<^verbatim>\<open>title\<close>, \<^verbatim>\<open>url\<close>, \<^verbatim>\<open>extendedProps\<close>, \<^verbatim>\<open>start\<close>, \<^verbatim>\<open>end\<close> (absent on an all-day event) and
  \<^verbatim>\<open>allDay\<close>.\<close>

record extended_props =
  p_dow :: string
  p_time :: string
  p_dateinfo :: string
  p_location :: string
  p_notes :: string
  p_source :: string
  p_tz :: string

record event =
  ev_title :: string
  ev_url :: "string option"
  ev_extendedProps :: extended_props
  ev_start :: string
  ev_end :: "string option"
  ev_allDay :: bool

definition SEARCH_URL :: string where
  "SEARCH_URL = ''https://www.zssw.unibe.ch/usp/zms/search.php''"

definition DEFAULT_TIMEZONE :: string where
  "DEFAULT_TIMEZONE = ''Europe/Zurich''"

definition DOW_MAP :: "string \<rightharpoonup> int" where
  "DOW_MAP =
     map_of [(''Mo'', 0), (''Di'', 1), (''Mi'', 2), (''Do'', 3), (''Fr'', 4), (''Sa'', 5),
             (''So'', 6)]"

definition props_of :: "RawRow \<Rightarrow> extended_props" where
  "props_of r =
     \<lparr>p_dow = dow r, p_time = time_str r, p_dateinfo = dateinfo r, p_location = location r,
      p_notes = rest r, p_source = SEARCH_URL, p_tz = DEFAULT_TIMEZONE\<rparr>"

text \<open>The two events \<^verbatim>\<open>add_event\<close> can append: \<^verbatim>\<open>dict(base)\<close> with the keys of its branch.\<close>

definition all_day_event :: "RawRow \<Rightarrow> date \<Rightarrow> event" where
  "all_day_event r d =
     \<lparr>ev_title = title r, ev_url = href r, ev_extendedProps = props_of r,
      ev_start = isoformat d, ev_end = None, ev_allDay = True\<rparr>"

definition timed_event :: "RawRow \<Rightarrow> date \<Rightarrow> time \<Rightarrow> time \<Rightarrow> event" where
  "timed_event r d start_t end_t =
     \<lparr>ev_title = title r, ev_url = href r, ev_extendedProps = props_of r,
      ev_start = datetime_isoformat d start_t,
      ev_end = Some (datetime_isoformat d end_t), ev_allDay = False\<rparr>"

text \<open>The closure \<^verbatim>\<open>add_event(day)\<close>, with the list \<open>events\<close> it appends to as state.\<close>

definition add_event :: "RawRow \<Rightarrow> time_range \<Rightarrow> date \<Rightarrow> event list \<Rightarrow> event list" where
  "add_event r tr d events =
     (case tr of
        (start_t, end_t, all_day) \<Rightarrow>
          if all_day then events @ [all_day_event r d]
          else (case start_t of
                  None \<Rightarrow> events
                | Some st \<Rightarrow>
                    (case end_t of
                       None \<Rightarrow> events
                     | Some en \<Rightarrow> events @ [timed_event r d st en])))"

text \<open>The loop \<^verbatim>\<open>while day <= horizon: add_event(day); day += timedelta(days=7)\<close>.\<close>

function phase_loop ::
  "RawRow \<Rightarrow> time_range \<Rightarrow> date \<Rightarrow> date \<Rightarrow> event list \<Rightarrow> py_error + event list" where
  "phase_loop r tr d horizon events =
     (if d \<le> horizon then
        (case date_add d 7 of
           Inl e \<Rightarrow> Inl e
         | Inr d' \<Rightarrow> phase_loop r tr d' horizon (add_event r tr d events))
      else Inr events)"
  by pat_completeness auto
termination
  by (relation "measure (\<lambda>(r, tr, d, horizon, events). nat (horizon + 1 - d))")
     (auto simp: date_add_def timedelta_def Let_def split: if_splits)

declare phase_loop.simps [simp del]

text \<open>The body of \<^verbatim>\<open>for r in rows\<close>.\<close>

definition process_row ::
  "date \<Rightarrow> int \<Rightarrow> RawRow \<Rightarrow> event list \<Rightarrow> py_error + event list" where
  "process_row today lookahead r events =
     (case DOW_MAP (dow r) of
        None \<Rightarrow> Inr events
      | Some weekday_idx \<Rightarrow>
          (case parse_time_range (time_str r) of
             Inl e \<Rightarrow> Inl e
           | Inr tr \<Rightarrow>
               (case parse_dateinfo (dateinfo r) of
                  Inl e \<Rightarrow> Inl e
                | Inr (Single d1) \<Rightarrow> Inr (add_event r tr d1 events)
                | Inr (DateRange d1 d2) \<Rightarrow>
                    (case daterange_weekly d1 d2 weekday_idx of
                       Inl e \<Rightarrow> Inl e
                     | Inr days \<Rightarrow> Inr (foldl (\<lambda>evs d. add_event r tr d evs) events days))
                | Inr Phase \<Rightarrow>
                    (case date_add today lookahead of
                       Inl e \<Rightarrow> Inl e
                     | Inr horizon \<Rightarrow>
                         (case next_date_for_weekday today weekday_idx of
                            Inl e \<Rightarrow> Inl e
                          | Inr first \<Rightarrow> phase_loop r tr first horizon events)))))"

fun rows_loop ::
  "date \<Rightarrow> int \<Rightarrow> RawRow list \<Rightarrow> event list \<Rightarrow> py_error + event list" where
  "rows_loop today lookahead [] events = Inr events"
| "rows_loop today lookahead (r # rows) events =
     (case process_row today lookahead r events of
        Inl e \<Rightarrow> Inl e
      | Inr events' \<Rightarrow> rows_loop today lookahead rows events')"

text \<open>\<^verbatim>\<open>sort_key(ev)\<close>; both keys are always present. Python compares the pairs
  lexicographically and the strings by code point, a proper prefix first.\<close>

definition sort_key_ev :: "event \<Rightarrow> string \<times> string" where
  "sort_key_ev ev = (ev_start ev, ev_title ev)"

text \<open>\<^verbatim>\<open>events.sort(key=sort_key)\<close> is a stable sort, as \<^const>\<open>sort_key\<close> is.\<close>

definition build_events :: "date \<Rightarrow> int \<Rightarrow> RawRow list \<Rightarrow> py_error + event list" where
  "build_events today lookahead rows =
     (case rows_loop today lookahead rows [] of
        Inl e \<Rightarrow> Inl e
      | Inr events \<Rightarrow> Inr (sort_key sort_key_ev events))"

text \<open>The dates for which the body of the loop calls \<^verbatim>\<open>add_event\<close>, for a row with weekday
  index \<open>w\<close> and date info \<open>di\<close>: the three branches of \<open>process_row\<close> without the
  events (lemma \<open>process_row_occurrences\<close> below relates the two).\<close>

definition occurrences :: "date \<Rightarrow> int \<Rightarrow> int \<Rightarrow> date_info \<Rightarrow> py_error + date list" where
  "occurrences today lookahead w di =
     (case di of
        Single d \<Rightarrow> Inr [d]
      | DateRange d1 d2 \<Rightarrow> daterange_weekly d1 d2 w
      | Phase \<Rightarrow>
          (case date_add today lookahead of
             Inl e \<Rightarrow> Inl e
           | Inr horizon \<Rightarrow>
               (case next_date_for_weekday today w of
                  Inl e \<Rightarrow> Inl e
                | Inr first \<Rightarrow> weekly_loop first horizon [])))"

section \<open>Properties\<close>

subsection \<open>Characters, white space and the patterns\<close>

lemma of_char_lower:
  "(of_char (lower c) :: nat) = (if 65 \<le> (of_char c :: nat) \<and> (of_char c :: nat) \<le> 90 then of_char c + 32 else of_char c)"
  by (simp add: lower_def Let_def)

lemma is_space_lower: "is_space (lower c) = is_space c"
  unfolding is_space_def Let_def of_char_lower by auto

lemma lower_eq_space: "lower c = CHR '' '' \<longleftrightarrow> c = CHR '' ''"
proof -
  have "lower c = CHR '' '' \<longleftrightarrow> (of_char (lower c) :: nat) = of_char CHR '' ''"
    by (simp only: of_char_eq_iff)
  also have "\<dots> \<longleftrightarrow> (of_char c :: nat) = of_char CHR '' ''"
    unfolding of_char_lower by auto
  also have "\<dots> \<longleftrightarrow> c = CHR '' ''"
    by (simp only: of_char_eq_iff)
  finally show ?thesis .
qed

lemma digit_not_space: "is_digit c \<Longrightarrow> \<not> is_space c"
  by (auto simp: is_digit_def is_space_def Let_def)

lemma digit_neq: "is_digit c \<Longrightarrow> c \<noteq> CHR '':'' \<and> c \<noteq> CHR ''-'' \<and> c \<noteq> CHR ''.'' \<and> c \<noteq> CHR '' ''"
  by (auto simp: is_digit_def Let_def)

lemma not_space_if_lower: "lower c = k \<Longrightarrow> \<not> is_space k \<Longrightarrow> \<not> is_space c"
  using is_space_lower by metis

lemma is_space_simps: "is_space CHR '' ''" "\<not> is_space CHR ''-''" "\<not> is_space CHR '':''" "\<not> is_space CHR ''.''"
  by (simp_all add: is_space_def)

lemma skip_ws_simps: "skip_ws [] = []" "skip_ws (c # s) = (if is_space c then skip_ws s else c # s)"
  by (simp_all add: skip_ws_def)

lemma sub_ws_no_space: "\<forall>c\<in>set xs. \<not> is_space c \<Longrightarrow> sub_ws (xs @ ys) = xs @ sub_ws ys"
  by (induction xs) auto

lemma sub_ws_id: "\<forall>c\<in>set xs. \<not> is_space c \<Longrightarrow> sub_ws xs = xs"
  using sub_ws_no_space[of xs "[]"] by simp

lemma strip_id: "s \<noteq> [] \<Longrightarrow> \<not> is_space (hd s) \<Longrightarrow> \<not> is_space (last s) \<Longrightarrow> strip s = s"
proof -
  assume a: "s \<noteq> []" "\<not> is_space (hd s)" "\<not> is_space (last s)"
  then have 1: "dropWhile is_space s = s" by (cases s) auto
  from a have "rev s \<noteq> []" "\<not> is_space (hd (rev s))" by (auto simp: hd_rev)
  then have 2: "dropWhile is_space (rev s) = rev s" by (cases "rev s") auto
  show ?thesis by (simp add: strip_def 1 2)
qed

lemma normalize_two_words:
  assumes "\<forall>c\<in>set xs. \<not> is_space c" "\<forall>c\<in>set ys. \<not> is_space c" "xs \<noteq> []" "ys \<noteq> []"
  shows "normalize_space (xs @ CHR '' '' # ys) = xs @ CHR '' '' # ys"
proof -
  have "sub_ws (xs @ CHR '' '' # ys) = xs @ CHR '' '' # ys"
    using assms by (cases ys) (simp_all add: sub_ws_no_space sub_ws_id is_space_simps)
  moreover have "strip (xs @ CHR '' '' # ys) = xs @ CHR '' '' # ys"
    using assms by (intro strip_id) (auto simp: hd_append)
  ultimately show ?thesis by (simp add: normalize_space_def)
qed

lemma normalize_one_word:
  assumes "\<forall>c\<in>set xs. \<not> is_space c"
  shows "normalize_space xs = xs"
proof (cases "xs = []")
  case True then show ?thesis by (simp add: normalize_space_def strip_def)
next
  case False
  then have "strip xs = xs" using assms by (intro strip_id) auto
  then show ?thesis using assms by (simp add: normalize_space_def sub_ws_id)
qed

lemma split_on_append: "sep \<notin> set h \<Longrightarrow> split_on sep (h @ sep # t) = h # split_on sep t"
  by (induction h) (auto split: list.splits)

lemma split_on_none: "sep \<notin> set m \<Longrightarrow> split_on sep m = [m]"
  by (induction m) (auto split: list.splits)

lemma int_of_digits_nonneg_aux: "list_all is_digit s \<Longrightarrow> 0 \<le> a \<Longrightarrow> 0 \<le> foldl (\<lambda>a c. 10 * a + digit_val c) a s"
  by (induction s arbitrary: a) (auto simp: is_digit_def digit_val_def Let_def)

lemma int_of_digits_nonneg: "list_all is_digit s \<Longrightarrow> 0 \<le> int_of_digits s"
  by (simp add: int_of_digits_def int_of_digits_nonneg_aux)

lemma hhmm_digits:
  assumes "list_all is_digit h" "length h = 1 \<or> length h = 2" "list_all is_digit m" "length m = 2"
  shows "hhmm (h @ CHR '':'' # m @ r) = Some (h @ CHR '':'' # m, r)"
proof -
  obtain m1 m2 where m: "m = [m1, m2]" using assms(4)
    by (cases m; cases "tl m") auto
  from assms(2) show ?thesis
  proof
    assume "length h = 1"
    then obtain a where "h = [a]" by (cases h) auto
    then show ?thesis using assms m by (simp add: hhmm_def colon_mm_def is_digit_def)
  next
    assume "length h = 2"
    then obtain a b where "h = [a, b]" by (cases h; cases "tl h") auto
    then show ?thesis using assms m by (simp add: hhmm_def colon_mm_def)
  qed
qed

lemma time_of_group_digits:
  assumes "list_all is_digit h" "list_all is_digit m"
  shows "time_of_group (h @ CHR '':'' # m) = mk_time (int_of_digits h) (int_of_digits m)"
proof -
  have "CHR '':'' \<notin> set h" "CHR '':'' \<notin> set m"
    using assms digit_neq by (auto simp: list_all_iff)
  then show ?thesis by (simp add: time_of_group_def split_on_append split_on_none)
qed

lemma parse_time_range_shape:
  assumes h1: "list_all is_digit h1" "length h1 = 1 \<or> length h1 = 2"
      and m1: "list_all is_digit m1" "length m1 = 2"
      and h2: "list_all is_digit h2" "length h2 = 1 \<or> length h2 = 2"
      and m2: "list_all is_digit m2" "length m2 = 2"
      and u: "map lower u = ''uhr''"
  shows "parse_time_range (h1 @ '':'' @ m1 @ ''-'' @ h2 @ '':'' @ m2 @ '' '' @ u) =
     (case mk_time (int_of_digits h1) (int_of_digits m1) of
        Inl e \<Rightarrow> Inl e
      | Inr st \<Rightarrow>
          (case mk_time (int_of_digits h2) (int_of_digits m2) of
             Inl e \<Rightarrow> Inl e
           | Inr en \<Rightarrow> Inr (Some st, Some en, False)))"
proof -
  let ?A = "h1 @ CHR '':'' # m1 @ CHR ''-'' # h2 @ CHR '':'' # m2"
  let ?S = "h1 @ CHR '':'' # m1 @ CHR ''-'' # h2 @ CHR '':'' # m2 @ CHR '' '' # u"
  have dns: "\<And>s c. list_all is_digit s \<Longrightarrow> c \<in> set s \<Longrightarrow> \<not> is_space c"
    using digit_not_space by (auto simp: list_all_iff)
  from u obtain u1 u2 u3 where u3: "u = [u1, u2, u3]"
    and ul: "lower u1 = CHR ''u''" "lower u2 = CHR ''h''" "lower u3 = CHR ''r''"
    by (auto simp: map_eq_Cons_conv)
  have uns: "\<not> is_space u1" "\<not> is_space u2" "\<not> is_space u3"
    by (rule not_space_if_lower[OF ul(1)] not_space_if_lower[OF ul(2)]
          not_space_if_lower[OF ul(3)], simp add: is_space_def)+
  have A: "\<forall>c\<in>set ?A. \<not> is_space c"
    using dns[OF h1(1)] dns[OF m1(1)] dns[OF h2(1)] dns[OF m2(1)]
    by (auto simp: is_space_simps)
  have Ane: "?A \<noteq> []" by simp
  have "normalize_space (?A @ CHR '' '' # u) = ?A @ CHR '' '' # u"
    by (rule normalize_two_words[OF A _ Ane]) (auto simp: u3 uns)
  then have n: "normalize_space ?S = ?S" by simp
  have hne: "h1 \<noteq> []" "h2 \<noteq> []" using h1 h2 by auto
  have hd1: "\<not> is_space (hd h1)" "\<not> is_space (hd h2)"
    using dns[OF h1(1)] dns[OF h2(1)] hne by auto
  have sk1: "skip_ws (h1 @ t) = h1 @ t" for t
    using hne hd1 by (cases h1) (simp_all add: skip_ws_def)
  have sk2: "skip_ws (h2 @ t) = h2 @ t" for t
    using hne hd1 by (cases h2) (simp_all add: skip_ws_def)
  have notall: "\<not> ALLDAY_RE ?S"
  proof -
    obtain a t where "h1 = a # t" using hne by (cases h1) auto
    moreover then have "is_digit a" using h1 by simp
    then have "\<not> is_space a" "lower a \<noteq> CHR ''g''"
      by (auto simp: digit_not_space is_digit_def Let_def lower_def)
    ultimately show ?thesis by (simp add: ALLDAY_RE_def skip_ws_def literal_i_def)
  qed
  have tr: "TIME_RE ?S = Some (h1 @ CHR '':'' # m1, h2 @ CHR '':'' # m2)"
    using hhmm_digits[OF h1 m1, of "CHR ''-'' # h2 @ CHR '':'' # m2 @ CHR '' '' # u"]
          hhmm_digits[OF h2 m2, of "CHR '' '' # u"]
    by (simp add: TIME_RE_def sk1 sk2 skip_ws_simps is_space_simps u3 uns literal_i_def ul
          ws_to_end_def)
  have eq: "h1 @ '':'' @ m1 @ ''-'' @ h2 @ '':'' @ m2 @ '' '' @ u = ?S" by simp
  show ?thesis unfolding eq parse_time_range_def n Let_def
    by (simp add: notall tr time_of_group_digits h1 m1 h2 m2 split: sum.split)
qed

lemma parse_time_range_all_day:
  assumes "map lower g = ''ganzer tag''"
  shows "parse_time_range g = Inr (None, None, True)"
proof -
  from assms obtain c0 c1 c2 c3 c4 c5 c6 c7 c8 c9 where g: "g = [c0,c1,c2,c3,c4,c5,c6,c7,c8,c9]"
    and l: "lower c0 = CHR ''g''" "lower c1 = CHR ''a''" "lower c2 = CHR ''n''"
       "lower c3 = CHR ''z''" "lower c4 = CHR ''e''" "lower c5 = CHR ''r''"
       "lower c6 = CHR '' ''" "lower c7 = CHR ''t''" "lower c8 = CHR ''a''"
       "lower c9 = CHR ''g''"
    by (auto simp: map_eq_Cons_conv)
  have ns: "\<not> is_space c0" "\<not> is_space c1" "\<not> is_space c2" "\<not> is_space c3"
       "\<not> is_space c4" "\<not> is_space c5" "\<not> is_space c7" "\<not> is_space c8" "\<not> is_space c9"
    by (rule not_space_if_lower[OF l(1)] not_space_if_lower[OF l(2)] not_space_if_lower[OF l(3)]
         not_space_if_lower[OF l(4)] not_space_if_lower[OF l(5)] not_space_if_lower[OF l(6)]
         not_space_if_lower[OF l(8)] not_space_if_lower[OF l(9)] not_space_if_lower[OF l(10)],
        simp add: is_space_def)+
  have c6: "c6 = CHR '' ''" using l by (simp add: lower_eq_space)
  have n: "normalize_space g = g"
    by (simp add: normalize_space_def strip_def g ns c6 is_space_simps)
  show ?thesis unfolding parse_time_range_def n Let_def
    by (simp add: g ns c6 is_space_simps ALLDAY_RE_def literal_i_def skip_ws_def l ws_to_end_def)
qed

lemma parse_time_range_unrecognized:
  "\<not> ALLDAY_RE (normalize_space s) \<Longrightarrow> TIME_RE (normalize_space s) = None
    \<Longrightarrow> parse_time_range s = Inr (None, None, False)"
  by (simp add: parse_time_range_def)

lemma lower_simps:
  "lower CHR ''U'' = CHR ''u''" "lower CHR ''T'' = CHR ''t''"
  "lower CHR ''a'' = CHR ''a''" "lower CHR ''e'' = CHR ''e''" "lower CHR ''g'' = CHR ''g''"
  "lower CHR ''h'' = CHR ''h''" "lower CHR ''n'' = CHR ''n''" "lower CHR ''r'' = CHR ''r''"
  "lower CHR ''z'' = CHR ''z''" "lower CHR '' '' = CHR '' ''"
  by (simp_all add: lower_def char_of_eq_iff)

lemma digit_simps:
  "is_digit CHR ''0''" "is_digit CHR ''1''" "is_digit CHR ''2''" "is_digit CHR ''3''"
  "is_digit CHR ''4''" "is_digit CHR ''5''" "is_digit CHR ''6''" "is_digit CHR ''7''"
  "is_digit CHR ''8''" "is_digit CHR ''9''"
  "digit_val CHR ''0'' = 0" "digit_val CHR ''1'' = 1" "digit_val CHR ''2'' = 2"
  "digit_val CHR ''3'' = 3" "digit_val CHR ''4'' = 4" "digit_val CHR ''5'' = 5"
  "digit_val CHR ''6'' = 6" "digit_val CHR ''7'' = 7" "digit_val CHR ''8'' = 8"
  "digit_val CHR ''9'' = 9"
  by (simp_all add: is_digit_def digit_val_def)

subsection \<open>The time range normalizer\<close>

text \<open>
  C7. On a text \<open>H:MM-H:MM Uhr\<close> (one or two hour digits, two minute digits, any letter
  case in \<open>Uhr\<close>) whose hours are at most 23 and whose minutes are at most 59,
  \<^verbatim>\<open>parse_time_range\<close> returns the two clock times it read and the all-day flag false; on
  \<open>ganzer Tag\<close> in any letter case it returns no clock times and the all-day flag true;
  and \<open>18:15-19:45 Uhr\<close> gives 18:15, 19:45 and false.
\<close>

theorem parse_time_range_recognized:
  assumes "list_all is_digit h1" "length h1 = 1 \<or> length h1 = 2"
      and "list_all is_digit m1" "length m1 = 2"
      and "list_all is_digit h2" "length h2 = 1 \<or> length h2 = 2"
      and "list_all is_digit m2" "length m2 = 2"
      and "map lower u = ''uhr''"
      and "int_of_digits h1 \<le> 23" "int_of_digits m1 \<le> 59"
      and "int_of_digits h2 \<le> 23" "int_of_digits m2 \<le> 59"
      and "map lower g = ''ganzer tag''"
  shows "parse_time_range (h1 @ '':'' @ m1 @ ''-'' @ h2 @ '':'' @ m2 @ '' '' @ u)
           = Inr (Some \<lparr>hour = int_of_digits h1, minute = int_of_digits m1\<rparr>,
                  Some \<lparr>hour = int_of_digits h2, minute = int_of_digits m2\<rparr>, False)
         \<and> parse_time_range g = Inr (None, None, True)
         \<and> parse_time_range ''18:15-19:45 Uhr''
           = Inr (Some \<lparr>hour = 18, minute = 15\<rparr>, Some \<lparr>hour = 19, minute = 45\<rparr>, False)"
proof (intro conjI)
  show "parse_time_range (h1 @ '':'' @ m1 @ ''-'' @ h2 @ '':'' @ m2 @ '' '' @ u)
           = Inr (Some \<lparr>hour = int_of_digits h1, minute = int_of_digits m1\<rparr>,
                  Some \<lparr>hour = int_of_digits h2, minute = int_of_digits m2\<rparr>, False)"
    unfolding parse_time_range_shape[OF assms(1-9)]
    using assms(10-13) int_of_digits_nonneg[OF assms(1)] int_of_digits_nonneg[OF assms(3)]
      int_of_digits_nonneg[OF assms(5)] int_of_digits_nonneg[OF assms(7)]
    by (simp add: mk_time_def)
  show "parse_time_range g = Inr (None, None, True)"
    by (rule parse_time_range_all_day[OF assms(14)])
  show "parse_time_range ''18:15-19:45 Uhr''
           = Inr (Some \<lparr>hour = 18, minute = 15\<rparr>, Some \<lparr>hour = 19, minute = 45\<rparr>, False)"
    using parse_time_range_shape[of "''18''" "''15''" "''19''" "''45''" "''Uhr''"]
    by (simp add: digit_simps int_of_digits_def lower_simps mk_time_def)
qed

theorem parse_time_range_recognized_witness:
  "parse_time_range (''8'' @ '':'' @ ''05'' @ ''-'' @ ''23'' @ '':'' @ ''59'' @ '' '' @ ''UHR'')
     = Inr (Some \<lparr>hour = int_of_digits ''8'', minute = int_of_digits ''05''\<rparr>,
            Some \<lparr>hour = int_of_digits ''23'', minute = int_of_digits ''59''\<rparr>, False)
   \<and> parse_time_range ''Ganzer TAG'' = Inr (None, None, True)
   \<and> parse_time_range ''18:15-19:45 Uhr''
     = Inr (Some \<lparr>hour = 18, minute = 15\<rparr>, Some \<lparr>hour = 19, minute = 45\<rparr>, False)"
  by (rule parse_time_range_recognized)
     (simp_all add: digit_simps int_of_digits_def lower_def char_of_eq_iff)

text \<open>
  C2. The text \<open>25:00-26:00 Uhr\<close> is neither of the two recognized forms (its hours are
  above 23), and \<^verbatim>\<open>parse_time_range\<close> does not return the no-op triple on it: the pattern
  \<^verbatim>\<open>TIME_RE\<close> accepts any one or two digits as the hour, and the constructor
  \<^verbatim>\<open>time(25, 0)\<close> raises \<^verbatim>\<open>ValueError\<close>.
\<close>

theorem parse_time_range_hour_out_of_range:
  "parse_time_range ''25:00-26:00 Uhr'' = Inl ValueError"
  using parse_time_range_shape[of "''25''" "''00''" "''26''" "''00''" "''Uhr''"]
  by (simp add: digit_simps int_of_digits_def lower_simps mk_time_def)

subsection \<open>The date info normalizer\<close>

text \<open>
  C3. A date text that matches neither the single-date pattern nor the range pattern
  (whether or not it starts with the word \<open>Phase\<close>) makes \<^verbatim>\<open>parse_dateinfo\<close> return the
  phase kind; it returns, so nothing is raised.
\<close>

theorem parse_dateinfo_fallback:
  "DATE_SINGLE_RE (normalize_space s) = None \<Longrightarrow> DATE_RANGE_RE (normalize_space s) = None
    \<Longrightarrow> parse_dateinfo s = Inr Phase"
  by (simp add: parse_dateinfo_def)

theorem parse_dateinfo_fallback_witness:
  "DATE_SINGLE_RE (normalize_space ''jeden Montag'') = None
   \<and> DATE_RANGE_RE (normalize_space ''jeden Montag'') = None
   \<and> \<not> PHASE_RE (normalize_space ''jeden Montag'')
   \<and> parse_dateinfo ''jeden Montag'' = Inr Phase"
  using parse_dateinfo_fallback[of "''jeden Montag''"]
  by (simp add: normalize_space_def strip_def is_space_def DATE_SINGLE_RE_def DATE_RANGE_RE_def
        skip_ws_def is_dmy_def is_digit_def PHASE_RE_def literal_i_def lower_def char_of_eq_iff)

subsection \<open>Weekly stepping\<close>

lemma date_add_ok: "0 < d + n \<Longrightarrow> d + n \<le> MAXORDINAL \<Longrightarrow> \<bar>n\<bar> \<le> 999999999 \<Longrightarrow> date_add d n = Inr (d + n)"
  by (simp add: date_add_def timedelta_def)

lemma weekday_neq: "d < x \<Longrightarrow> x < d + 7 \<Longrightarrow> weekday x \<noteq> weekday d"
proof
  assume a: "d < x" "x < d + 7" and "weekday x = weekday d"
  then have "7 dvd (x + 6) - (d + 6)" by (simp only: weekday_def mod_eq_dvd_iff)
  then have "7 dvd x - d" by simp
  then have "7 \<le> x - d" using a by (intro zdvd_imp_le) auto
  then show False using a by simp
qed

lemma weekday_plus7: "weekday (d + 7) = weekday d"
proof -
  have "d + 7 + 6 = (d + 6) + 7" by simp
  then show ?thesis by (simp only: weekday_def mod_add_self2)
qed

lemma weekday_next:
  assumes "0 \<le> w" "w < 7"
  shows "weekday (start + (w - weekday start) mod 7) = w"
proof -
  define a where "a = (start + 6) mod 7"
  have "(start + (w - a) mod 7 + 6) mod 7 = ((start + 6) + (w - a) mod 7) mod 7"
    by (simp add: algebra_simps)
  also have "\<dots> = ((start + 6) + (w - a)) mod 7"
    by (rule mod_add_right_eq)
  also have "\<dots> = ((start + 6) mod 7 + (w - a)) mod 7"
    by (rule mod_add_left_eq[symmetric])
  also have "\<dots> = w mod 7" by (simp add: a_def)
  finally show ?thesis using assms by (simp add: a_def weekday_def)
qed

lemma next_date_for_weekday_ok:
  assumes "1 \<le> start" "start + 6 \<le> MAXORDINAL"
  shows "next_date_for_weekday start w = Inr (start + (w - weekday start) mod 7)"
proof -
  define k where "k = (w - weekday start) mod 7"
  have "0 \<le> k" "k < 7" by (simp_all add: k_def)
  then have "date_add start k = Inr (start + k)"
    using assms by (intro date_add_ok) auto
  then show ?thesis by (simp add: next_date_for_weekday_def Let_def k_def)
qed

lemma filter_weekday_none:
  assumes "\<forall>x. a \<le> x \<and> x \<le> b \<longrightarrow> weekday x \<noteq> w"
  shows "filter (\<lambda>x. weekday x = w) [a..b] = []"
  using assms by (simp add: filter_empty_conv)

lemma filter_weekday_before:
  assumes "start \<le> f" "\<forall>x. start \<le> x \<and> x < f \<longrightarrow> weekday x \<noteq> w"
  shows "filter (\<lambda>x. weekday x = w) [start..e] = filter (\<lambda>x. weekday x = w) [f..e]"
proof (cases "f \<le> e + 1")
  case True
  have "[start..e] = [start..f - 1] @ [f..e]"
  proof (cases "start = f")
    case True then show ?thesis by simp
  next
    case False
    then show ?thesis using True assms(1) upto_split2[of start "f - 1" e] by simp
  qed
  moreover have "filter (\<lambda>x. weekday x = w) [start..f - 1] = []"
    using assms(2) by (intro filter_weekday_none) auto
  ultimately show ?thesis by simp
next
  case False
  then have "filter (\<lambda>x. weekday x = w) [start..e] = []"
    using assms(2) by (intro filter_weekday_none) auto
  moreover have "[f..e] = []" using False by simp
  ultimately show ?thesis by simp
qed

lemma filter_weekday_step:
  assumes "weekday d = w" "d \<le> e"
  shows "filter (\<lambda>x. weekday x = w) [d..e] = d # filter (\<lambda>x. weekday x = w) [d + 7..e]"
proof -
  have "\<forall>x. d + 1 \<le> x \<and> x < d + 7 \<longrightarrow> weekday x \<noteq> w"
    using weekday_neq[of d] assms(1) by auto
  then have "filter (\<lambda>x. weekday x = w) [d + 1..e] = filter (\<lambda>x. weekday x = w) [d + 7..e]"
    by (intro filter_weekday_before) auto
  then show ?thesis using assms by (simp add: upto_rec1)
qed

lemma weekly_loop_filter:
  "1 \<le> d \<Longrightarrow> e + 7 \<le> MAXORDINAL \<Longrightarrow> weekday d = w \<Longrightarrow>
   weekly_loop d e out = Inr (out @ filter (\<lambda>x. weekday x = w) [d..e])"
proof (induction d e out rule: weekly_loop.induct)
  case (1 d e out)
  show ?case
  proof (cases "d \<le> e")
    case True
    have da: "date_add d 7 = Inr (d + 7)"
      using True 1(2,3) by (intro date_add_ok) auto
    have wd: "weekday (d + 7) = w" using 1(4) by (simp add: weekday_plus7)
    have "weekly_loop (d + 7) e (out @ [d]) = Inr ((out @ [d]) @ filter (\<lambda>x. weekday x = w) [d + 7..e])"
      using 1(1)[OF True da] 1(2,3) wd by simp
    then show ?thesis using True da filter_weekday_step[OF 1(4) True]
      by (subst weekly_loop.simps) simp
  next
    case False
    then show ?thesis by (subst weekly_loop.simps) simp
  qed
qed

lemma weekly_loop_map:
  "1 \<le> d \<Longrightarrow> e + 7 \<le> MAXORDINAL \<Longrightarrow>
   weekly_loop d e out = Inr (out @ map (\<lambda>k. d + 7 * int k) [0..<nat ((e - d + 7) div 7)])"
proof (induction d e out rule: weekly_loop.induct)
  case (1 d e out)
  show ?case
  proof (cases "d \<le> e")
    case True
    have da: "date_add d 7 = Inr (d + 7)"
      using True 1(2,3) by (intro date_add_ok) auto
    have "(e - d + 7) div 7 = (e - (d + 7) + 7) div 7 + 1" by simp
    moreover have "0 \<le> (e - (d + 7) + 7) div 7" using True by simp
    ultimately have n: "nat ((e - d + 7) div 7) = Suc (nat ((e - (d + 7) + 7) div 7))"
      by (simp add: Suc_nat_eq_nat_zadd1)
    have "weekly_loop (d + 7) e (out @ [d]) = Inr ((out @ [d]) @ map (\<lambda>k. d + 7 + 7 * int k) [0..<nat ((e - (d + 7) + 7) div 7)])"
      using 1(1)[OF True da] 1(2,3) by simp
    then show ?thesis using True da unfolding n
      by (subst weekly_loop.simps) (simp add: map_upt_Suc del: upt_Suc)
  next
    case False
    then have "nat ((e - d + 7) div 7) = 0" by simp
    then show ?thesis using False by (subst weekly_loop.simps) simp
  qed
qed

text \<open>
  C4 (amended). For a start date no later than 9999-12-25, an end date no later than
  9999-12-24 and a weekday index 0..6, \<^verbatim>\<open>daterange_weekly\<close> returns exactly the dates
  from start to end (both included) that fall on the weekday, in ascending order; they
  are the first such date on or after start and then every seventh day. (Closer to
  9999-12-31 the step of seven days can leave the range of dates, see the
  counterexample.)
\<close>

theorem daterange_weekly_dates:
  assumes "valid_date start" "start + 6 \<le> MAXORDINAL" "end_d + 7 \<le> MAXORDINAL"
      and "0 \<le> w" "w < 7"
  shows "let first = start + (w - weekday start) mod 7
         in daterange_weekly start end_d w = Inr (filter (\<lambda>d. weekday d = w) [start..end_d])
          \<and> filter (\<lambda>d. weekday d = w) [start..end_d]
              = map (\<lambda>k. first + 7 * int k) [0..<nat ((end_d - first + 7) div 7)]
          \<and> start \<le> first \<and> first < start + 7 \<and> weekday first = w"
proof -
  define first where "first = start + (w - weekday start) mod 7"
  have f: "start \<le> first" "first < start + 7" by (simp_all add: first_def)
  have wf: "weekday first = w" unfolding first_def by (rule weekday_next[OF assms(4,5)])
  have s1: "1 \<le> start" using assms(1) by (simp add: valid_date_def)
  have nd: "next_date_for_weekday start w = Inr first"
    unfolding first_def by (rule next_date_for_weekday_ok[OF s1 assms(2)])
  have dw: "daterange_weekly start end_d w = weekly_loop first end_d []"
    using f by (simp add: daterange_weekly_def nd)
  have f1: "1 \<le> first" using f s1 by simp
  have before: "\<forall>x. start \<le> x \<and> x < first \<longrightarrow> weekday x \<noteq> w"
  proof (intro allI impI)
    fix x assume x: "start \<le> x \<and> x < first"
    then have "x < first" "first < x + 7" using f by auto
    then have "weekday first \<noteq> weekday x" by (rule weekday_neq)
    then show "weekday x \<noteq> w" using wf by simp
  qed
  have eq: "filter (\<lambda>d. weekday d = w) [start..end_d] = filter (\<lambda>d. weekday d = w) [first..end_d]"
    by (rule filter_weekday_before[OF f(1) before])
  have a: "daterange_weekly start end_d w = Inr (filter (\<lambda>d. weekday d = w) [start..end_d])"
    using weekly_loop_filter[OF f1 assms(3) wf, of "[]"] by (simp add: dw eq)
  have b: "filter (\<lambda>d. weekday d = w) [start..end_d]
            = map (\<lambda>k. first + 7 * int k) [0..<nat ((end_d - first + 7) div 7)]"
    using weekly_loop_filter[OF f1 assms(3) wf, of "[]"] weekly_loop_map[OF f1 assms(3), of "[]"]
    by (simp add: eq)
  show ?thesis unfolding Let_def first_def[symmetric] using a b f wf by simp
qed

theorem daterange_weekly_dates_witness:
  "mk_date 2026 2 18 = Inr 739665 \<and> mk_date 2026 5 27 = Inr 739763
   \<and> valid_date 739665 \<and> 739665 + 6 \<le> MAXORDINAL \<and> 739763 + 7 \<le> MAXORDINAL
   \<and> daterange_weekly 739665 739763 2
     = Inr [739665, 739672, 739679, 739686, 739693, 739700, 739707, 739714, 739721, 739728,
            739735, 739742, 739749, 739756, 739763]"
  using daterange_weekly_dates[of 739665 739763 2]
  by (simp add: valid_date_def MAXORDINAL_def weekday_def Let_def mk_date_def
        days_in_month_def DAYS_IN_MONTH_def is_leap_def ymd2ord_def days_before_year_def
        days_before_month_def DAYS_BEFORE_MONTH_def)

text \<open>
  C4 as stated fails near the last date: from 9999-12-01 to 9999-12-31 on Fridays
  (index 4; 9999-12-31 is a Friday) the code appends 9999-12-31 and then adds seven
  days to it, which raises \<^verbatim>\<open>OverflowError\<close>, so no list is returned.
\<close>

theorem daterange_weekly_overflow:
  "mk_date 9999 12 1 = Inr 3652029 \<and> mk_date 9999 12 31 = Inr 3652059
   \<and> weekday 3652059 = 4
   \<and> daterange_weekly 3652029 3652059 4 = Inl OverflowError"
  by (simp add: daterange_weekly_def next_date_for_weekday_def weekday_def date_add_def
        timedelta_def MAXORDINAL_def weekly_loop.simps mk_date_def
        days_in_month_def DAYS_IN_MONTH_def is_leap_def ymd2ord_def days_before_year_def
        days_before_month_def DAYS_BEFORE_MONTH_def)

subsection \<open>The loops of \<^verbatim>\<open>build_events\<close>\<close>

lemma add_event_append: "add_event r tr d evs = evs @ add_event r tr d []"
  by (auto simp: add_event_def split: prod.splits option.splits)

lemma foldl_add_event:
  "foldl (\<lambda>evs d. add_event r tr d evs) evs ds = evs @ concat (map (\<lambda>d. add_event r tr d []) ds)"
proof (induction ds arbitrary: evs)
  case Nil then show ?case by simp
next
  case (Cons d ds)
  show ?case by (simp add: Cons.IH) (subst add_event_append, simp)
qed

lemma phase_loop_weekly:
  "phase_loop r tr d h (evs @ concat (map (\<lambda>d. add_event r tr d []) out)) =
     (case weekly_loop d h out of
        Inl e \<Rightarrow> Inl e
      | Inr ds \<Rightarrow> Inr (evs @ concat (map (\<lambda>d. add_event r tr d []) ds)))"
proof (induction d h out rule: weekly_loop.induct)
  case (1 d h out)
  show ?case
  proof (cases "d \<le> h")
    case True
    show ?thesis
    proof (cases "date_add d 7")
      case (Inl e)
      then show ?thesis using True
        by (subst phase_loop.simps, subst weekly_loop.simps) simp
    next
      case (Inr d')
      have "add_event r tr d (evs @ concat (map (\<lambda>d. add_event r tr d []) out))
            = evs @ concat (map (\<lambda>d. add_event r tr d []) (out @ [d]))"
        by (subst add_event_append) simp
      then show ?thesis using True Inr 1[OF True Inr]
        by (subst phase_loop.simps, subst weekly_loop.simps) simp
    qed
  next
    case False
    then show ?thesis by (subst phase_loop.simps, subst weekly_loop.simps) simp
  qed
qed

lemma process_row_occurrences:
  assumes "DOW_MAP (dow r) = Some w" "parse_time_range (time_str r) = Inr tr"
    "parse_dateinfo (dateinfo r) = Inr di"
  shows "process_row today la r evs =
     (case occurrences today la w di of
        Inl e \<Rightarrow> Inl e
      | Inr ds \<Rightarrow> Inr (evs @ concat (map (\<lambda>d. add_event r tr d []) ds)))"
proof (cases di)
  case (Single d)
  then show ?thesis using assms
    by (simp add: process_row_def occurrences_def) (subst add_event_append, simp)
next
  case (DateRange d1 d2)
  then show ?thesis using assms
    by (simp add: process_row_def occurrences_def foldl_add_event split: sum.splits)
next
  case Phase
  then show ?thesis using assms phase_loop_weekly[of r tr _ _ evs "[]"]
    by (simp add: process_row_def occurrences_def split: sum.splits)
qed

lemma process_row_append:
  "process_row today la r evs =
     (case process_row today la r [] of Inl e \<Rightarrow> Inl e | Inr new \<Rightarrow> Inr (evs @ new))"
proof (cases "DOW_MAP (dow r)")
  case None then show ?thesis by (simp add: process_row_def)
next
  case (Some w)
  show ?thesis
  proof (cases "parse_time_range (time_str r)")
    case (Inl e) then show ?thesis using Some by (simp add: process_row_def)
  next
    case tr: (Inr tr)
    show ?thesis
    proof (cases "parse_dateinfo (dateinfo r)")
      case (Inl e) then show ?thesis using Some tr by (simp add: process_row_def)
    next
      case (Inr di)
      show ?thesis
        by (simp add: process_row_occurrences[OF Some tr Inr] split: sum.splits)
    qed
  qed
qed

lemma rows_loop_append:
  "rows_loop today la (xs @ ys) evs =
     (case rows_loop today la xs evs of Inl e \<Rightarrow> Inl e | Inr evs' \<Rightarrow> rows_loop today la ys evs')"
  by (induction xs arbitrary: evs) (auto split: sum.splits)

lemma rows_loop_Inr:
  "rows_loop today la rows evs = Inr out \<longleftrightarrow>
     (\<forall>r\<in>set rows. \<exists>new. process_row today la r [] = Inr new) \<and>
     out = evs @ concat (map (\<lambda>r. projr (process_row today la r [])) rows)"
proof (induction rows arbitrary: evs)
  case Nil then show ?case by auto
next
  case (Cons r rows)
  show ?case
  proof (cases "process_row today la r []")
    case (Inl e)
    then show ?thesis by (subst rows_loop.simps, subst process_row_append) auto
  next
    case (Inr new)
    then show ?thesis
      by (subst rows_loop.simps, subst process_row_append) (simp add: Cons.IH)
  qed
qed

subsection \<open>Expansion of a row\<close>

lemma DOW_MAP_range: "DOW_MAP s = Some w \<Longrightarrow> 0 \<le> w \<and> w < 7"
  by (auto simp: DOW_MAP_def split: if_splits)

lemma build_events_single_row:
  "build_events today la [r] =
     (case process_row today la r [] of Inl e \<Rightarrow> Inl e | Inr evs \<Rightarrow> Inr (sort_key sort_key_ev evs))"
  by (simp add: build_events_def split: sum.splits)

lemma occurrences_phase:
  assumes "valid_date today" "0 \<le> la" "today + la + 7 \<le> MAXORDINAL" "0 \<le> w" "w < 7"
  shows "occurrences today la w Phase = Inr (filter (\<lambda>d. weekday d = w) [today..today + la])"
proof -
  define first where "first = today + (w - weekday today) mod 7"
  have t1: "1 \<le> today" using assms(1) by (simp add: valid_date_def)
  have f: "today \<le> first" "first < today + 7" by (simp_all add: first_def)
  have wf: "weekday first = w" unfolding first_def by (rule weekday_next[OF assms(4,5)])
  have h: "date_add today la = Inr (today + la)"
    using t1 assms(2,3) by (intro date_add_ok) (auto simp: MAXORDINAL_def)
  have nd: "next_date_for_weekday today w = Inr first"
    unfolding first_def using t1 assms(2,3) by (intro next_date_for_weekday_ok) auto
  have before: "\<forall>x. today \<le> x \<and> x < first \<longrightarrow> weekday x \<noteq> w"
  proof (intro allI impI)
    fix x assume x: "today \<le> x \<and> x < first"
    then have "x < first" "first < x + 7" using f by auto
    then have "weekday first \<noteq> weekday x" by (rule weekday_neq)
    then show "weekday x \<noteq> w" using wf by simp
  qed
  have "weekly_loop first (today + la) [] = Inr (filter (\<lambda>d. weekday d = w) [first..today + la])"
    using weekly_loop_filter[of first "today + la" w "[]"] f t1 assms(3) wf by simp
  also have "filter (\<lambda>d. weekday d = w) [first..today + la] = filter (\<lambda>d. weekday d = w) [today..today + la]"
    by (rule filter_weekday_before[OF f(1) before, symmetric])
  finally show ?thesis by (simp add: occurrences_def h nd)
qed

lemma iso5: "map isoformat [739621, 739628, 739635, 739642, 739649] = [''2026-01-05'', ''2026-01-12'', ''2026-01-19'', ''2026-01-26'', ''2026-02-02'']"
  by (simp add: isoformat_def ord2ymd_def Let_def zero_pad_def str_nat.simps DAYS_BEFORE_MONTH_def DAYS_IN_MONTH_def char_of_eq_iff)

lemma sorted5:
  "sorted (map sort_key_ev (concat (map (\<lambda>d. add_event r tr d []) [739621, 739628, 739635, 739642, 739649])))"
proof -
  obtain s e a where tr: "tr = (s, e, a)" by (cases tr)
  have iso: "isoformat 739621 = ''2026-01-05''" "isoformat 739628 = ''2026-01-12''"
    "isoformat 739635 = ''2026-01-19''" "isoformat 739642 = ''2026-01-26''" "isoformat 739649 = ''2026-02-02''"
    using iso5 by simp_all
  show ?thesis
    by (cases a; cases s; cases e)
       (simp_all add: tr add_event_def sort_key_ev_def all_day_event_def timed_event_def
          datetime_isoformat_def iso less_char_def less_eq_char_def)
qed

lemma parse_time_range_examples:
  "parse_time_range ''18:15-19:45 Uhr''
     = Inr (Some \<lparr>hour = 18, minute = 15\<rparr>, Some \<lparr>hour = 19, minute = 45\<rparr>, False)"
  "parse_time_range ''19:45-18:15 Uhr''
     = Inr (Some \<lparr>hour = 19, minute = 45\<rparr>, Some \<lparr>hour = 18, minute = 15\<rparr>, False)"
  "parse_time_range ''ganzer Tag'' = Inr (None, None, True)"
  "parse_time_range ''nach Absprache'' = Inr (None, None, False)"
proof -
  show "parse_time_range ''18:15-19:45 Uhr''
     = Inr (Some \<lparr>hour = 18, minute = 15\<rparr>, Some \<lparr>hour = 19, minute = 45\<rparr>, False)"
    using parse_time_range_shape[of "''18''" "''15''" "''19''" "''45''" "''Uhr''"]
    by (simp add: digit_simps int_of_digits_def lower_simps mk_time_def)
  show "parse_time_range ''19:45-18:15 Uhr''
     = Inr (Some \<lparr>hour = 19, minute = 45\<rparr>, Some \<lparr>hour = 18, minute = 15\<rparr>, False)"
    using parse_time_range_shape[of "''19''" "''45''" "''18''" "''15''" "''Uhr''"]
    by (simp add: digit_simps int_of_digits_def lower_simps mk_time_def)
  show "parse_time_range ''ganzer Tag'' = Inr (None, None, True)"
    by (rule parse_time_range_all_day) (simp add: lower_simps)
  show "parse_time_range ''nach Absprache'' = Inr (None, None, False)"
    by (rule parse_time_range_unrecognized)
       (simp_all add: normalize_space_def strip_def is_space_def ALLDAY_RE_def TIME_RE_def
          literal_i_def skip_ws_def lower_def char_of_eq_iff hhmm_def is_digit_def)
qed

lemma parse_dateinfo_examples:
  "parse_dateinfo ''Phase 2'' = Inr Phase"
  "parse_dateinfo ''05.01.2026'' = Inr (Single 739621)"
  "parse_dateinfo ''31.02.2026'' = Inl ValueError"
  by (simp_all add: parse_dateinfo_def normalize_space_def strip_def is_space_def
        DATE_SINGLE_RE_def DATE_RANGE_RE_def skip_ws_def is_dmy_def is_digit_def ws_to_end_def
        strptime_dmy_def year_field_def int_of_digits_def digit_val_def mk_date_def
        days_in_month_def DAYS_IN_MONTH_def is_leap_def ymd2ord_def days_before_year_def
        days_before_month_def DAYS_BEFORE_MONTH_def)

lemma DOW_MAP_simps: "DOW_MAP ''Mo'' = Some 0" "DOW_MAP ''Di'' = Some 1" "DOW_MAP ''Xx'' = None"
  by (simp_all add: DOW_MAP_def)

text \<open>
  C5 (amended). Let a row have a recognized weekday code, a time text that
  \<^verbatim>\<open>parse_time_range\<close> accepts and a date text of the phase kind, and let today plus the
  lookahead (not negative) plus seven days be no later than 9999-12-31. Then
  \<^verbatim>\<open>build_events\<close> on that row returns, sorted, the events \<^verbatim>\<open>add_event\<close> builds for
  exactly the dates from today to today plus lookahead (both included) that fall on the
  row's weekday: one all-day event per date for an all-day time range, one timed event
  per date for a time range with both clock times. With today = 2026-01-05 (ordinal
  739621, a Monday), lookahead 28 and weekday \<open>Mo\<close> these are the five dates 2026-01-05,
  2026-01-12, 2026-01-19, 2026-01-26 and 2026-02-02, in this order.
\<close>

theorem build_events_phase:
  assumes "DOW_MAP (dow r) = Some w"
      and "parse_time_range (time_str r) = Inr tr"
      and "parse_dateinfo (dateinfo r) = Inr Phase"
      and "valid_date today" "0 \<le> la" "today + la + 7 \<le> MAXORDINAL"
  shows "build_events today la [r]
           = Inr (sort_key sort_key_ev
                   (concat (map (\<lambda>d. add_event r tr d [])
                                (filter (\<lambda>d. weekday d = w) [today..today + la]))))
         \<and> (tr = (None, None, True) \<longrightarrow> add_event r tr d [] = [all_day_event r d])
         \<and> (tr = (Some st, Some en, False) \<longrightarrow> add_event r tr d [] = [timed_event r d st en])
         \<and> (today = 739621 \<and> la = 28 \<and> w = 0 \<longrightarrow>
              mk_date 2026 1 5 = Inr today
              \<and> build_events today la [r]
                  = Inr (concat (map (\<lambda>d. add_event r tr d [])
                                    [739621, 739628, 739635, 739642, 739649]))
              \<and> map isoformat [739621, 739628, 739635, 739642, 739649]
                  = [''2026-01-05'', ''2026-01-12'', ''2026-01-19'', ''2026-01-26'',
                     ''2026-02-02''])"
proof -
  have w: "0 \<le> w" "w < 7" using DOW_MAP_range[OF assms(1)] by auto
  have occ: "occurrences today la w Phase = Inr (filter (\<lambda>d. weekday d = w) [today..today + la])"
    by (rule occurrences_phase[OF assms(4-6) w])
  have gen: "build_events today la [r]
           = Inr (sort_key sort_key_ev
                   (concat (map (\<lambda>d. add_event r tr d [])
                                (filter (\<lambda>d. weekday d = w) [today..today + la]))))"
    by (simp add: build_events_single_row process_row_occurrences[OF assms(1-3)] occ)
  have inst: "build_events today la [r]
                  = Inr (concat (map (\<lambda>d. add_event r tr d [])
                                    [739621, 739628, 739635, 739642, 739649]))"
    if "today = 739621 \<and> la = 28 \<and> w = 0"
  proof -
    have "filter (\<lambda>d. weekday d = w) [today..today + la] = [739621, 739628, 739635, 739642, 739649]"
      using that by (simp add: weekday_def)
    then show ?thesis
      unfolding gen using sort_key_id_if_sorted[OF sorted5[of r tr]] by simp
  qed
  have md: "mk_date 2026 1 5 = Inr 739621"
    by (simp add: mk_date_def days_in_month_def DAYS_IN_MONTH_def is_leap_def ymd2ord_def
        days_before_year_def days_before_month_def DAYS_BEFORE_MONTH_def)
  show ?thesis using gen inst md iso5 by (simp add: add_event_def)
qed

theorem build_events_phase_witness:
  "DOW_MAP ''Mo'' = Some 0
   \<and> parse_time_range ''18:15-19:45 Uhr''
       = Inr (Some \<lparr>hour = 18, minute = 15\<rparr>, Some \<lparr>hour = 19, minute = 45\<rparr>, False)
   \<and> parse_dateinfo ''Phase 2'' = Inr Phase
   \<and> valid_date 739621 \<and> (0::int) \<le> 28 \<and> 739621 + 28 + 7 \<le> MAXORDINAL
   \<and> map_sum id (map ev_start)
        (build_events 739621 28
          [\<lparr>title = ''Yoga'', href = None, dow = ''Mo'', time_str = ''18:15-19:45 Uhr'',
            dateinfo = ''Phase 2'', location = ''Halle 1'', rest = []\<rparr>])
       = Inr [''2026-01-05T18:15:00'', ''2026-01-12T18:15:00'', ''2026-01-19T18:15:00'',
              ''2026-01-26T18:15:00'', ''2026-02-02T18:15:00'']"
proof -
  let ?r = "\<lparr>title = ''Yoga'', href = None, dow = ''Mo'', time_str = ''18:15-19:45 Uhr'',
            dateinfo = ''Phase 2'', location = ''Halle 1'', rest = []\<rparr>"
  let ?tr = "(Some \<lparr>hour = 18, minute = 15\<rparr>, Some \<lparr>hour = 19, minute = 45\<rparr>, False)"
  have h: "DOW_MAP (dow ?r) = Some 0" "parse_time_range (time_str ?r) = Inr ?tr"
    "parse_dateinfo (dateinfo ?r) = Inr Phase" "valid_date 739621" "(0::int) \<le> 28"
    "739621 + 28 + 7 \<le> MAXORDINAL"
    by (simp_all add: DOW_MAP_simps parse_time_range_examples parse_dateinfo_examples
          valid_date_def MAXORDINAL_def)
  have "build_events 739621 28 [?r]
          = Inr (concat (map (\<lambda>d. add_event ?r ?tr d [])
                   [739621, 739628, 739635, 739642, 739649]))"
  proof -
    have p: "(739621::int) = 739621 \<and> (28::int) = 28 \<and> (0::int) = 0" by simp
    note T = build_events_phase[OF h, where d = 0 and st = "\<lparr>hour = 18, minute = 15\<rparr>"
        and en = "\<lparr>hour = 19, minute = 45\<rparr>"]
    show ?thesis
      by (rule T[THEN conjunct2, THEN conjunct2, THEN conjunct2, THEN mp, OF p,
                 THEN conjunct2, THEN conjunct1])
  qed
  moreover have "zero_pad 2 18 = ''18''" "zero_pad 2 15 = ''15''"
    by (simp_all add: zero_pad_def str_nat.simps char_of_eq_iff)
  ultimately have res: "map_sum id (map ev_start) (build_events 739621 28 [?r])
       = Inr [''2026-01-05T18:15:00'', ''2026-01-12T18:15:00'', ''2026-01-19T18:15:00'',
              ''2026-01-26T18:15:00'', ''2026-02-02T18:15:00'']"
    using iso5 by (simp add: add_event_def timed_event_def datetime_isoformat_def)
  have c: "DOW_MAP ''Mo'' = Some 0"
    "parse_time_range ''18:15-19:45 Uhr''
       = Inr (Some \<lparr>hour = 18, minute = 15\<rparr>, Some \<lparr>hour = 19, minute = 45\<rparr>, False)"
    "parse_dateinfo ''Phase 2'' = Inr Phase"
    using h(1-3) by simp_all
  show ?thesis by (intro conjI c h(4-6) res)
qed

text \<open>
  C5 as stated fails for a lookahead that carries the horizon past 9999-12-31: with
  today = 2026-01-05 and \<^verbatim>\<open>PHASE_LOOKAHEAD_DAYS\<close> = 3000000 the sum
  \<^verbatim>\<open>today + timedelta(days=3000000)\<close> raises \<^verbatim>\<open>OverflowError\<close> and no occurrence is
  produced.
\<close>

theorem build_events_phase_overflow:
  "build_events 739621 3000000
     [\<lparr>title = ''Yoga'', href = None, dow = ''Mo'', time_str = ''ganzer Tag'',
       dateinfo = ''Phase 2'', location = ''Halle 1'', rest = []\<rparr>] = Inl OverflowError"
  by (simp add: build_events_single_row process_row_def DOW_MAP_simps parse_time_range_examples
        parse_dateinfo_examples date_add_def timedelta_def MAXORDINAL_def)

subsection \<open>The order of the events\<close>

lemma build_events_Inr:
  "build_events today la rows = Inr evs \<longleftrightarrow>
     (\<forall>r\<in>set rows. \<exists>new. process_row today la r [] = Inr new) \<and>
     evs = sort_key sort_key_ev (concat (map (\<lambda>r. projr (process_row today la r [])) rows))"
proof (cases "rows_loop today la rows []")
  case (Inl e)
  then have "\<not> (\<forall>r\<in>set rows. \<exists>new. process_row today la r [] = Inr new)"
    using rows_loop_Inr[of today la rows "[]"] by auto
  then show ?thesis using Inl by (simp add: build_events_def)
next
  case (Inr out)
  then show ?thesis using rows_loop_Inr[of today la rows "[]" out]
    by (auto simp: build_events_def)
qed

lemma mset_concat_map:
  "mset (concat (map f xs)) = (\<Sum>x\<in>#mset xs. mset (f x))"
  by (induction xs) auto

lemma sorted_same_mset_eq:
  fixes xs ys :: "'a::linorder list"
  assumes "sorted xs" "sorted ys" "mset xs = mset ys"
  shows "xs = ys"
  using properties_for_sort[OF assms(3) assms(1)] sorted_sort_id[OF assms(2)] by simp

lemma process_row_all_day_single:
  "process_row today la
     \<lparr>title = t, href = h, dow = ''Mo'', time_str = ''ganzer Tag'', dateinfo = ''05.01.2026'',
      location = l, rest = n\<rparr> evs
   = Inr (evs @ [all_day_event \<lparr>title = t, href = h, dow = ''Mo'', time_str = ''ganzer Tag'',
                   dateinfo = ''05.01.2026'', location = l, rest = n\<rparr> 739621])"
  by (simp add: process_row_def DOW_MAP_simps parse_time_range_examples parse_dateinfo_examples
        add_event_def)

lemma filter_sort_key_concat:
  "filter (\<lambda>ev. key ev = k) (sort_key key (concat (map f rows)))
     = concat (map (\<lambda>r. filter (\<lambda>ev. key ev = k) (f r)) rows)"
  by (simp add: sort_key_stable filter_concat comp_def)

text \<open>
  C9 (amended). The sequence \<^verbatim>\<open>build_events\<close> returns is sorted ascending by the pair
  (start, title), and the sort is stable: for every pair \<open>k\<close>, the events with the pair
  \<open>k\<close> stand in the result in the order of the rows they come from (and, within one
  row, in the order the row produces them). When the input rows are reordered,
  \<^verbatim>\<open>build_events\<close> still returns; it returns the same events (as a multiset) with the
  same sequence of sort keys, the events with one pair again in the order of the
  reordered rows, and the identical sequence when no two events share the pair
  (start, title). Events that share it follow the order of the input rows.
\<close>

theorem build_events_sorted_perm:
  assumes "build_events today la rows = Inr evs" and "mset rows' = mset rows"
  shows "sorted (map sort_key_ev evs)
       \<and> (\<forall>r\<in>set rows. process_row today la r [] = Inr (projr (process_row today la r [])))
       \<and> (\<forall>k. filter (\<lambda>ev. sort_key_ev ev = k) evs
               = concat (map (\<lambda>r. filter (\<lambda>ev. sort_key_ev ev = k)
                                      (projr (process_row today la r []))) rows))
       \<and> (\<exists>evs'. build_events today la rows' = Inr evs'
              \<and> mset evs' = mset evs
              \<and> map sort_key_ev evs' = map sort_key_ev evs
              \<and> (\<forall>k. filter (\<lambda>ev. sort_key_ev ev = k) evs'
                      = concat (map (\<lambda>r. filter (\<lambda>ev. sort_key_ev ev = k)
                                             (projr (process_row today la r []))) rows'))
              \<and> (distinct (map sort_key_ev evs) \<longrightarrow> evs' = evs))"
proof -
  let ?f = "\<lambda>r. projr (process_row today la r [])"
  have ok: "\<forall>r\<in>set rows. \<exists>new. process_row today la r [] = Inr new"
    and evs: "evs = sort_key sort_key_ev (concat (map ?f rows))"
    using assms(1) by (simp_all add: build_events_Inr)
  have ok': "\<forall>r\<in>set rows. process_row today la r [] = Inr (?f r)"
    using ok by auto
  define evs' where "evs' = sort_key sort_key_ev (concat (map ?f rows'))"
  have "set rows' = set rows" using assms(2) by (rule mset_eq_setD)
  then have b': "build_events today la rows' = Inr evs'"
    using ok by (simp add: build_events_Inr evs'_def)
  have st: "\<forall>k. filter (\<lambda>ev. sort_key_ev ev = k) evs
               = concat (map (\<lambda>r. filter (\<lambda>ev. sort_key_ev ev = k) (?f r)) rows)"
    unfolding evs by (simp add: filter_sort_key_concat)
  have st': "\<forall>k. filter (\<lambda>ev. sort_key_ev ev = k) evs'
               = concat (map (\<lambda>r. filter (\<lambda>ev. sort_key_ev ev = k) (?f r)) rows')"
    unfolding evs'_def by (simp add: filter_sort_key_concat)
  have m: "mset evs' = mset evs"
    by (simp add: evs evs'_def mset_concat_map assms(2))
  have s: "sorted (map sort_key_ev evs)" "sorted (map sort_key_ev evs')"
    by (simp_all add: evs evs'_def)
  have "mset (map sort_key_ev evs') = mset (map sort_key_ev evs)"
    using m by simp
  then have k: "map sort_key_ev evs' = map sort_key_ev evs"
    using s by (intro sorted_same_mset_eq)
  have d: "evs' = evs" if dist: "distinct (map sort_key_ev evs)"
  proof (rule map_sorted_distinct_set_unique[of sort_key_ev])
    have "set evs' = set evs" using m by (rule mset_eq_setD)
    then show "set evs' = set evs" .
    from dist have "inj_on sort_key_ev (set evs)" by (simp add: distinct_map)
    then show "inj_on sort_key_ev (set evs' \<union> set evs)" using \<open>set evs' = set evs\<close> by simp
    show "sorted (map sort_key_ev evs')" "sorted (map sort_key_ev evs)" by (rule s)+
    show "distinct (map sort_key_ev evs)" by (rule dist)
    show "distinct (map sort_key_ev evs')" using dist k by simp
  qed
  have ex: "\<exists>evs'. build_events today la rows' = Inr evs'
              \<and> mset evs' = mset evs
              \<and> map sort_key_ev evs' = map sort_key_ev evs
              \<and> (\<forall>k. filter (\<lambda>ev. sort_key_ev ev = k) evs'
                      = concat (map (\<lambda>r. filter (\<lambda>ev. sort_key_ev ev = k) (?f r)) rows'))
              \<and> (distinct (map sort_key_ev evs) \<longrightarrow> evs' = evs)"
    using b' m k st' d by blast
  show ?thesis by (intro conjI s(1) ok' st ex)
qed

theorem build_events_sorted_perm_witness:
  "build_events 739621 28
     [\<lparr>title = ''Yoga'', href = None, dow = ''Mo'', time_str = ''ganzer Tag'',
       dateinfo = ''05.01.2026'', location = ''Halle 1'', rest = []\<rparr>,
      \<lparr>title = ''Pilates'', href = None, dow = ''Mo'', time_str = ''ganzer Tag'',
       dateinfo = ''05.01.2026'', location = ''Halle 2'', rest = []\<rparr>]
    = Inr [all_day_event
             \<lparr>title = ''Pilates'', href = None, dow = ''Mo'', time_str = ''ganzer Tag'',
               dateinfo = ''05.01.2026'', location = ''Halle 2'', rest = []\<rparr> 739621,
           all_day_event
             \<lparr>title = ''Yoga'', href = None, dow = ''Mo'', time_str = ''ganzer Tag'',
               dateinfo = ''05.01.2026'', location = ''Halle 1'', rest = []\<rparr> 739621]
   \<and> build_events 739621 28
     [\<lparr>title = ''Pilates'', href = None, dow = ''Mo'', time_str = ''ganzer Tag'',
       dateinfo = ''05.01.2026'', location = ''Halle 2'', rest = []\<rparr>,
      \<lparr>title = ''Yoga'', href = None, dow = ''Mo'', time_str = ''ganzer Tag'',
       dateinfo = ''05.01.2026'', location = ''Halle 1'', rest = []\<rparr>]
    = Inr [all_day_event
             \<lparr>title = ''Pilates'', href = None, dow = ''Mo'', time_str = ''ganzer Tag'',
               dateinfo = ''05.01.2026'', location = ''Halle 2'', rest = []\<rparr> 739621,
           all_day_event
             \<lparr>title = ''Yoga'', href = None, dow = ''Mo'', time_str = ''ganzer Tag'',
               dateinfo = ''05.01.2026'', location = ''Halle 1'', rest = []\<rparr> 739621]"
proof -
  let ?Y = "\<lparr>title = ''Yoga'', href = None, dow = ''Mo'', time_str = ''ganzer Tag'',
       dateinfo = ''05.01.2026'', location = ''Halle 1'', rest = []\<rparr>"
  let ?P = "\<lparr>title = ''Pilates'', href = None, dow = ''Mo'', time_str = ''ganzer Tag'',
       dateinfo = ''05.01.2026'', location = ''Halle 2'', rest = []\<rparr>"
  let ?evs = "[all_day_event ?P 739621, all_day_event ?Y 739621]"
  have h1: "build_events 739621 28 [?Y, ?P] = Inr ?evs"
    by (simp add: build_events_def process_row_all_day_single sort_key_ev_def all_day_event_def
          less_char_def less_eq_char_def)
  have h2: "mset [?P, ?Y] = mset [?Y, ?P]" by simp
  have dist: "distinct (map sort_key_ev ?evs)"
    by (simp add: sort_key_ev_def all_day_event_def)
  obtain evs' where "build_events 739621 28 [?P, ?Y] = Inr evs'"
    and "distinct (map sort_key_ev ?evs) \<longrightarrow> evs' = ?evs"
    using build_events_sorted_perm[OF h1 h2] by blast
  then have "build_events 739621 28 [?P, ?Y] = Inr ?evs" using dist by blast
  then show ?thesis using h1 by (intro conjI)
qed

text \<open>
  C9 as stated fails on two rows that differ only in the location: the two events have
  the same start and title, the stable sort leaves them in row order, and swapping the
  rows swaps the events.
\<close>

theorem build_events_order_depends_on_rows:
  "build_events 739621 28
     [\<lparr>title = ''Yoga'', href = None, dow = ''Mo'', time_str = ''ganzer Tag'',
       dateinfo = ''05.01.2026'', location = ''Halle 1'', rest = []\<rparr>,
      \<lparr>title = ''Yoga'', href = None, dow = ''Mo'', time_str = ''ganzer Tag'',
       dateinfo = ''05.01.2026'', location = ''Halle 2'', rest = []\<rparr>]
    = Inr [all_day_event
             \<lparr>title = ''Yoga'', href = None, dow = ''Mo'', time_str = ''ganzer Tag'',
               dateinfo = ''05.01.2026'', location = ''Halle 1'', rest = []\<rparr> 739621,
           all_day_event
             \<lparr>title = ''Yoga'', href = None, dow = ''Mo'', time_str = ''ganzer Tag'',
               dateinfo = ''05.01.2026'', location = ''Halle 2'', rest = []\<rparr> 739621]
   \<and> build_events 739621 28
     [\<lparr>title = ''Yoga'', href = None, dow = ''Mo'', time_str = ''ganzer Tag'',
       dateinfo = ''05.01.2026'', location = ''Halle 2'', rest = []\<rparr>,
      \<lparr>title = ''Yoga'', href = None, dow = ''Mo'', time_str = ''ganzer Tag'',
       dateinfo = ''05.01.2026'', location = ''Halle 1'', rest = []\<rparr>]
    = Inr [all_day_event
             \<lparr>title = ''Yoga'', href = None, dow = ''Mo'', time_str = ''ganzer Tag'',
               dateinfo = ''05.01.2026'', location = ''Halle 2'', rest = []\<rparr> 739621,
           all_day_event
             \<lparr>title = ''Yoga'', href = None, dow = ''Mo'', time_str = ''ganzer Tag'',
               dateinfo = ''05.01.2026'', location = ''Halle 1'', rest = []\<rparr> 739621]
   \<and> all_day_event
         \<lparr>title = ''Yoga'', href = None, dow = ''Mo'', time_str = ''ganzer Tag'',
           dateinfo = ''05.01.2026'', location = ''Halle 1'', rest = []\<rparr> 739621
       \<noteq> all_day_event
         \<lparr>title = ''Yoga'', href = None, dow = ''Mo'', time_str = ''ganzer Tag'',
           dateinfo = ''05.01.2026'', location = ''Halle 2'', rest = []\<rparr> 739621"
  by (simp add: build_events_def process_row_all_day_single sort_key_ev_def all_day_event_def
        props_of_def)

subsection \<open>The calendar: ordinals and year, month, day\<close>

text \<open>Reading year, month and day off the ordinal of a date gives back the year, month
  and day the date was built from; the proof follows the 400, 100, 4 and 1 year cycles of
  \<open>ord2ymd\<close>.\<close>

lemma div32_cases:
  fixes x m :: int
  assumes "32 * m \<le> x" "x < 32 * (m + 2)"
  shows "x div 32 = m \<or> x div 32 = m + 1"
proof (cases "x < 32 * (m + 1)")
  case True
  then have "x div 32 = m"
    using assms int_div_pos_eq[of x 32 m "x - 32 * m"] by simp
  then show ?thesis ..
next
  case False
  then have "x div 32 = m + 1"
    using assms int_div_pos_eq[of x 32 "m + 1" "x - 32 * (m + 1)"] by simp
  then show ?thesis ..
qed

lemma month_cases:
  fixes m :: int
  assumes "1 \<le> m" "m \<le> 12"
  shows "m = 1 \<or> m = 2 \<or> m = 3 \<or> m = 4 \<or> m = 5 \<or> m = 6 \<or> m = 7 \<or> m = 8 \<or> m = 9 \<or> m = 10 \<or> m = 11 \<or> m = 12"
  using assms by arith

lemma month_of_offset:
  assumes m: "1 \<le> m" "m \<le> 12"
    and d: "1 \<le> d" "d \<le> (if m = 2 \<and> L then 29 else DAYS_IN_MONTH ! nat m)"
    and off: "off = DAYS_BEFORE_MONTH ! nat m + (if 2 < m \<and> L then 1 else 0) + d - 1"
    and le: "off \<le> 364"
  shows "(let month = (off + 50) div 32;
              preceding = DAYS_BEFORE_MONTH ! nat month + (if month > 2 \<and> L then 1 else 0)
          in if preceding > off then
               (let month' = month - 1;
                    preceding' = preceding
                       - (DAYS_IN_MONTH ! nat month' + (if month' = 2 \<and> L then 1 else 0))
                in (month', off - preceding' + 1))
             else (month, off - preceding + 1)) = (m, d)"
proof -
  have b: "32 * m \<le> off + 50" "off + 50 < 32 * (m + 2)"
    using month_cases[OF m] d off
    by (auto simp: DAYS_BEFORE_MONTH_def DAYS_IN_MONTH_def split: if_splits)
  from div32_cases[OF b] show ?thesis
    using month_cases[OF m] d off le
    by (elim disjE) (auto simp: Let_def DAYS_BEFORE_MONTH_def DAYS_IN_MONTH_def split: if_splits)
qed

lemma year_decomp:
  fixes Y :: int
  assumes "0 \<le> Y"
  defines "a \<equiv> Y div 400" and "b \<equiv> (Y mod 400) div 100" and "c \<equiv> (Y mod 100) div 4" and "e \<equiv> Y mod 4"
  shows "Y = 400 * a + 100 * b + 4 * c + e" "0 \<le> a" "0 \<le> b" "b \<le> 3" "0 \<le> c" "c \<le> 24" "0 \<le> e" "e \<le> 3"
proof -
  have 1: "Y = 400 * a + Y mod 400" by (simp add: a_def)
  have 2: "Y mod 400 = 100 * b + (Y mod 400) mod 100" by (simp add: b_def)
  have 3: "(Y mod 400) mod 100 = Y mod 100" by (simp add: mod_mod_cancel)
  have 4: "Y mod 100 = 4 * c + (Y mod 100) mod 4" by (simp add: c_def)
  have 5: "(Y mod 100) mod 4 = Y mod 4" by (simp add: mod_mod_cancel)
  show "Y = 400 * a + 100 * b + 4 * c + e" using 1 2 3 4 5 by (simp add: e_def)
  show "0 \<le> a" using assms(1) by (simp add: a_def)
  show "0 \<le> b" by (simp add: b_def)
  have "Y mod 400 < 400" by simp
  then show "b \<le> 3" unfolding b_def by arith
  show "0 \<le> c" by (simp add: c_def)
  have "Y mod 100 < 100" by simp
  then show "c \<le> 24" unfolding c_def by arith
  show "0 \<le> e" by (simp add: e_def)
  have "Y mod 4 < 4" by simp
  then show "e \<le> 3" unfolding e_def by arith
qed

lemma succ_mod_zero_iff:
  fixes k :: int
  assumes "y = k * q + r + 1" "0 \<le> r" "r < k"
  shows "y mod k = 0 \<longleftrightarrow> r = k - 1"
proof (cases "r = k - 1")
  case True
  then have "y = k * (q + 1)" using assms by (simp add: algebra_simps)
  then show ?thesis using True by simp
next
  case False
  then have "y mod k = r + 1"
    using assms int_mod_pos_eq[of y k q "r + 1"] by simp
  then show ?thesis using False assms by simp
qed

lemma calendar_parts:
  fixes y :: int
  assumes "1 \<le> y"
  defines "a \<equiv> (y - 1) div 400" and "b \<equiv> ((y - 1) mod 400) div 100"
      and "c \<equiv> ((y - 1) mod 100) div 4" and "e \<equiv> (y - 1) mod 4"
  shows "y = 400 * a + 100 * b + 4 * c + e + 1"
    and "0 \<le> a" "0 \<le> b" "b \<le> 3" "0 \<le> c" "c \<le> 24" "0 \<le> e" "e \<le> 3"
    and "days_before_year y = 146097 * a + 36524 * b + 1461 * c + 365 * e"
    and "is_leap y \<longleftrightarrow> e = 3 \<and> (c \<noteq> 24 \<or> b = 3)"
proof -
  have Y0: "0 \<le> y - 1" using assms(1) by simp
  note D = year_decomp[OF Y0, folded a_def b_def c_def e_def]
  show y: "y = 400 * a + 100 * b + 4 * c + e + 1" using D(1) by simp
  show bounds: "0 \<le> a" "0 \<le> b" "b \<le> 3" "0 \<le> c" "c \<le> 24" "0 \<le> e" "e \<le> 3"
    using D by simp_all
  have d4: "(y - 1) div 4 = 100 * a + 25 * b + c"
    using D by (intro int_div_pos_eq[of _ _ _ e]) auto
  have d100: "(y - 1) div 100 = 4 * a + b"
    using D by (intro int_div_pos_eq[of _ _ _ "4 * c + e"]) auto
  have d400: "(y - 1) div 400 = a" by (simp add: a_def)
  show "days_before_year y = 146097 * a + 36524 * b + 1461 * c + 365 * e"
    unfolding days_before_year_def Let_def d4 d100 d400 using D(1) by simp
  have m4: "y mod 4 = 0 \<longleftrightarrow> e = 3"
    using bounds by (subst succ_mod_zero_iff[of y 4 "100 * a + 25 * b + c" e]) (simp_all add: y)
  have m100: "y mod 100 = 0 \<longleftrightarrow> 4 * c + e = 99"
    using bounds by (subst succ_mod_zero_iff[of y 100 "4 * a + b" "4 * c + e"]) (simp_all add: y)
  have m400: "y mod 400 = 0 \<longleftrightarrow> 100 * b + 4 * c + e = 399"
    using bounds by (subst succ_mod_zero_iff[of y 400 a "100 * b + 4 * c + e"]) (simp_all add: y)
  show "is_leap y \<longleftrightarrow> e = 3 \<and> (c \<noteq> 24 \<or> b = 3)"
    unfolding is_leap_def m4 m100 m400 using bounds by auto
qed

lemma offset_bounds:
  assumes "1 \<le> m" "m \<le> 12" "1 \<le> d" "d \<le> days_in_month y m"
  shows "0 \<le> days_before_month y m + d - 1"
    and "days_before_month y m + d - 1 \<le> (if is_leap y then 365 else 364)"
    and "days_before_month y m + d - 1 = 365 \<longrightarrow> m = 12 \<and> d = 31"
  using month_cases[OF assms(1,2)] assms(3,4)
  by (auto simp: days_before_month_def days_in_month_def DAYS_BEFORE_MONTH_def DAYS_IN_MONTH_def
        split: if_splits)

lemma ord2ymd_unfold:
  assumes "n div 146097 = n400" "n mod 146097 = r400"
      and "r400 div 36524 = n100" "r400 mod 36524 = r100"
      and "r100 div 1461 = n4" "r100 mod 1461 = r4"
      and "r4 div 365 = n1" "r4 mod 365 = r1"
  shows "ord2ymd (n + 1) =
     (let year = n400 * 400 + 1 + n100 * 100 + n4 * 4 + n1
      in if n1 = 4 \<or> n100 = 4 then (year - 1, 12, 31)
         else
           (let leapyear = (n1 = 3 \<and> (n4 \<noteq> 24 \<or> n100 = 3));
                month = (r1 + 50) div 32;
                preceding = DAYS_BEFORE_MONTH ! nat month
                              + (if month > 2 \<and> leapyear then 1 else 0)
            in if preceding > r1 then
                 (let month' = month - 1;
                      preceding' = preceding
                         - (DAYS_IN_MONTH ! nat month'
                            + (if month' = 2 \<and> leapyear then 1 else 0))
                  in (year, month', r1 - preceding' + 1))
               else (year, month, r1 - preceding + 1)))"
  by (simp add: ord2ymd_def assms)

lemma divmod_eq:
  fixes x k q r :: int
  assumes "x = k * q + r" "0 \<le> r" "r < k"
  shows "x div k = q \<and> x mod k = r"
  using int_div_pos_eq[OF assms] int_mod_pos_eq[OF assms] by simp

lemma ord2ymd_ymd2ord:
  assumes y: "1 \<le> y" and m: "1 \<le> m" "m \<le> 12" and d: "1 \<le> d" "d \<le> days_in_month y m"
  shows "ord2ymd (ymd2ord y m d) = (y, m, d)"
proof -
  define a where "a = (y - 1) div 400"
  define b where "b = ((y - 1) mod 400) div 100"
  define c where "c = ((y - 1) mod 100) div 4"
  define e where "e = (y - 1) mod 4"
  define off where "off = days_before_month y m + d - 1"
  note P = calendar_parts[OF y, folded a_def b_def c_def e_def]
  note O = offset_bounds[OF m d, folded off_def]
  define n where "n = 146097 * a + 36524 * b + 1461 * c + 365 * e + off"
  have ord: "ymd2ord y m d = n + 1"
    by (simp add: ymd2ord_def P(9) n_def off_def)
  have leap: "is_leap y \<longleftrightarrow> e = 3 \<and> (c \<noteq> 24 \<or> b = 3)" by (rule P(10))
  have off365: "off \<le> 365" using O(2) by (simp split: if_splits)
  show ?thesis
  proof (cases "off = 365")
    case True
    then have md: "m = 12" "d = 31" using O(3) by auto
    have lp: "e = 3" "c \<noteq> 24 \<or> b = 3" using True O(2) leap by (auto split: if_splits)
    show ?thesis
    proof (cases "c = 24")
      case c24: True
      then have b3: "b = 3" using lp by simp
      have n: "n = 146097 * a + 146096" by (simp add: n_def True lp c24 b3)
      have 1: "n div 146097 = a \<and> n mod 146097 = 146096"
        by (rule divmod_eq) (simp_all add: n)
      have r: "ord2ymd (n + 1) = (400 * a + 400, 12, 31)"
        by (subst ord2ymd_unfold[of n a 146096 4 0 0 0 0 0]) (simp_all add: 1)
      have "y = 400 * a + 400" using P(1) by (simp add: lp c24 b3)
      then show ?thesis unfolding ord r using md by simp
    next
      case False
      then have c23: "c \<le> 23" using P(6) by simp
      have 1: "n div 146097 = a \<and> n mod 146097 = 36524 * b + 1461 * c + 1460"
        using P(2-8) c23 by (intro divmod_eq) (simp_all add: n_def True lp)
      have 2: "(36524 * b + 1461 * c + 1460) div 36524 = b
             \<and> (36524 * b + 1461 * c + 1460) mod 36524 = 1461 * c + 1460"
        using P(2-8) c23 by (intro divmod_eq) simp_all
      have 3: "(1461 * c + 1460) div 1461 = c \<and> (1461 * c + 1460) mod 1461 = 1460"
        using P(2-8) by (intro divmod_eq) simp_all
      have r: "ord2ymd (n + 1) = (400 * a + 100 * b + 4 * c + 4, 12, 31)"
        by (subst ord2ymd_unfold[of n a "36524 * b + 1461 * c + 1460" b "1461 * c + 1460" c 1460 4 0])
           (simp_all add: 1 2 3)
      have "y = 400 * a + 100 * b + 4 * c + 4" using P(1) by (simp add: lp)
      then show ?thesis unfolding ord r using md by simp
    qed
  next
    case False
    then have o364: "off \<le> 364" using off365 by simp
    have 1: "n div 146097 = a \<and> n mod 146097 = 36524 * b + 1461 * c + 365 * e + off"
      using P(2-8) O(1) o364 by (intro divmod_eq) (simp_all add: n_def)
    have 2: "(36524 * b + 1461 * c + 365 * e + off) div 36524 = b
           \<and> (36524 * b + 1461 * c + 365 * e + off) mod 36524 = 1461 * c + 365 * e + off"
      using P(2-8) O(1) o364 by (intro divmod_eq) simp_all
    have 3: "(1461 * c + 365 * e + off) div 1461 = c
           \<and> (1461 * c + 365 * e + off) mod 1461 = 365 * e + off"
      using P(2-8) O(1) o364 by (intro divmod_eq) simp_all
    have 4: "(365 * e + off) div 365 = e \<and> (365 * e + off) mod 365 = off"
      using P(2-8) O(1) o364 by (intro divmod_eq) simp_all
    have dl: "d \<le> (if m = 2 \<and> is_leap y then 29 else DAYS_IN_MONTH ! nat m)"
      using d(2) by (simp add: days_in_month_def)
    have oe: "off = DAYS_BEFORE_MONTH ! nat m + (if 2 < m \<and> is_leap y then 1 else 0) + d - 1"
      by (simp add: off_def days_before_month_def)
    note M = month_of_offset[OF m d(1) dl oe o364, unfolded Let_def]
    have yy: "a * 400 + 1 + b * 100 + c * 4 + e = y" using P(1) by simp
    have e4: "e \<noteq> 4" "b \<noteq> 4" using P(4,8) by auto
    note U = ord2ymd_unfold[OF conjunct1[OF 1] conjunct2[OF 1] conjunct1[OF 2] conjunct2[OF 2]
                conjunct1[OF 3] conjunct2[OF 3] conjunct1[OF 4] conjunct2[OF 4]]
    have r: "ord2ymd (n + 1) = (y, m, d)"
      unfolding U Let_def yy leap[symmetric]
      using M e4 by (auto split: if_splits)
    show ?thesis unfolding ord r ..
  qed
qed

lemma ymd2ord_bounds:
  assumes y: "1 \<le> y" "y \<le> 9999" and m: "1 \<le> m" "m \<le> 12"
      and d: "1 \<le> d" "d \<le> days_in_month y m"
  shows "1 \<le> ymd2ord y m d" "ymd2ord y m d \<le> MAXORDINAL"
proof -
  define a where "a = (y - 1) div 400"
  define b where "b = ((y - 1) mod 400) div 100"
  define c where "c = ((y - 1) mod 100) div 4"
  define e where "e = (y - 1) mod 4"
  define off where "off = days_before_month y m + d - 1"
  note P = calendar_parts[OF y(1), folded a_def b_def c_def e_def]
  note O = offset_bounds[OF m d, folded off_def]
  have ord: "ymd2ord y m d = 146097 * a + 36524 * b + 1461 * c + 365 * e + off + 1"
    by (simp add: ymd2ord_def P(9) off_def)
  show "1 \<le> ymd2ord y m d" using P(2-8) O(1) by (simp add: ord)
  have o: "off \<le> 365" "e \<noteq> 3 \<longrightarrow> off \<le> 364"
    using O(2) P(10) by (auto split: if_splits)
  have a24: "a \<le> 24" using P(1-8) y(2) by simp
  have "146097 * a + 36524 * b + 1461 * c + 365 * e + off + 1 \<le> 3652059"
  proof (cases "a \<le> 23")
    case True
    then show ?thesis using P(2-8) o by simp
  next
    case False
    then have a: "a = 24" using a24 by simp
    show ?thesis
    proof (cases "b \<le> 2")
      case True
      then show ?thesis using P(2-8) o a by simp
    next
      case False
      then have b: "b = 3" using P(4) by simp
      show ?thesis
      proof (cases "c \<le> 23")
        case True
        then show ?thesis using P(2-8) o a b by simp
      next
        case False
        then have c: "c = 24" using P(6) by simp
        have "e \<le> 2" using P(1) y(2) a b c by simp
        then show ?thesis using P(2-8) o a b c by simp
      qed
    qed
  qed
  then show "ymd2ord y m d \<le> MAXORDINAL" by (simp add: ord MAXORDINAL_def)
qed

lemma mk_date_Inr:
  "mk_date y m d = Inr x \<longleftrightarrow>
     1 \<le> y \<and> y \<le> 9999 \<and> 1 \<le> m \<and> m \<le> 12 \<and> 1 \<le> d \<and> d \<le> days_in_month y m
     \<and> x = ymd2ord y m d"
  by (auto simp: mk_date_def)

lemma mk_date_valid: "mk_date y m d = Inr x \<Longrightarrow> valid_date x"
  using ymd2ord_bounds[of y m d] by (auto simp: mk_date_Inr valid_date_def)

lemma mk_date_ymd:
  assumes "mk_date y m d = Inr x"
  shows "year x = y" "month x = m" "day x = d"
  using assms ord2ymd_ymd2ord[of y m d]
  by (auto simp: mk_date_Inr year_def month_def day_def)

lemma str_nat_digits: "list_all is_digit (str_nat n)"
proof (induction n rule: str_nat.induct)
  case (1 n)
  have "is_digit (char_of (48 + k))" if "k < 10" for k :: nat
    using that by (simp add: is_digit_def)
  then show ?case using 1 by (subst str_nat.simps) auto
qed

lemma int_of_digits_snoc: "int_of_digits (s @ [c]) = 10 * int_of_digits s + digit_val c"
  by (simp add: int_of_digits_def)

lemma int_of_digits_str_nat: "int_of_digits (str_nat n) = int n"
proof (induction n rule: str_nat.induct)
  case (1 n)
  have dv: "digit_val (char_of (48 + k)) = int k" if "k < 10" for k :: nat
    using that by (simp add: digit_val_def)
  show ?case
  proof (cases "n < 10")
    case True
    then show ?thesis by (subst str_nat.simps) (simp add: int_of_digits_def dv)
  next
    case False
    then show ?thesis using 1
      by (subst str_nat.simps) (simp add: int_of_digits_snoc dv zmod_int zdiv_int)
  qed
qed

lemma length_str_nat_4: "1000 \<le> n \<Longrightarrow> n \<le> 9999 \<Longrightarrow> length (str_nat n) = 4"
  by (simp add: str_nat.simps[of n] str_nat.simps[of "n div 10"] str_nat.simps[of "n div 10 div 10"]
        str_nat.simps[of "n div 10 div 10 div 10"] div_less_iff_less_mult)

subsection \<open>Parsing dates\<close>

lemma char_eq_code:
  "c = CHR ''0'' \<longleftrightarrow> (of_char c :: nat) = 48"
  "c = CHR ''1'' \<longleftrightarrow> (of_char c :: nat) = 49"
  "c = CHR ''2'' \<longleftrightarrow> (of_char c :: nat) = 50"
  "c = CHR ''3'' \<longleftrightarrow> (of_char c :: nat) = 51"
  "c = CHR '' '' \<longleftrightarrow> (of_char c :: nat) = 32"
  using of_char_eq_iff[of c "CHR ''0''", where ?'a = nat] of_char_eq_iff[of c "CHR ''1''", where ?'a = nat]
    of_char_eq_iff[of c "CHR ''2''", where ?'a = nat] of_char_eq_iff[of c "CHR ''3''", where ?'a = nat]
    of_char_eq_iff[of c "CHR '' ''", where ?'a = nat]
  by simp_all

lemma day_field_two:
  assumes "is_digit a" "is_digit b" "1 \<le> 10 * digit_val a + digit_val b"
    "10 * digit_val a + digit_val b \<le> 31"
  shows "day_field [a, b]"
  using assms by (auto simp: char_eq_code is_digit_def digit_val_def Let_def)

lemma month_field_two:
  assumes "is_digit a" "is_digit b" "1 \<le> 10 * digit_val a + digit_val b"
    "10 * digit_val a + digit_val b \<le> 12"
  shows "month_field [a, b]"
  using assms by (auto simp: char_eq_code is_digit_def digit_val_def Let_def)

lemma days_in_month_le: "1 \<le> m \<Longrightarrow> m \<le> 12 \<Longrightarrow> days_in_month y m \<le> 31"
  using month_cases[of m] by (auto simp: days_in_month_def DAYS_IN_MONTH_def)

lemma strptime_dmy_shape:
  assumes dd: "length dd = 2" "list_all is_digit dd"
      and mm: "length mm = 2" "list_all is_digit mm"
      and yy: "length yyyy = 4" "list_all is_digit yyyy"
      and mk: "mk_date (int_of_digits yyyy) (int_of_digits mm) (int_of_digits dd) = Inr x"
  shows "strptime_dmy (dd @ CHR ''.'' # mm @ CHR ''.'' # yyyy) = Inr x"
proof -
  obtain a b where d2: "dd = [a, b]" using dd(1) by (cases dd; cases "tl dd") auto
  obtain p q where m2: "mm = [p, q]" using mm(1) by (cases mm; cases "tl mm") auto
  have dig: "is_digit a" "is_digit b" "is_digit p" "is_digit q" using dd(2) mm(2) d2 m2 by auto
  have nodot: "CHR ''.'' \<notin> set dd" "CHR ''.'' \<notin> set mm" "CHR ''.'' \<notin> set yyyy"
    using dd(2) mm(2) yy(2) digit_neq by (auto simp: list_all_iff)
  have sp: "split_on CHR ''.'' (dd @ CHR ''.'' # mm @ CHR ''.'' # yyyy) = [dd, mm, yyyy]"
    by (simp add: split_on_append[OF nodot(1)] split_on_append[OF nodot(2)] split_on_none[OF nodot(3)])
  have vals: "int_of_digits dd = 10 * digit_val a + digit_val b"
    "int_of_digits mm = 10 * digit_val p + digit_val q"
    by (simp_all add: int_of_digits_def d2 m2)
  have rng: "1 \<le> int_of_digits mm" "int_of_digits mm \<le> 12" "1 \<le> int_of_digits dd"
    "int_of_digits dd \<le> days_in_month (int_of_digits yyyy) (int_of_digits mm)"
    using mk by (simp_all add: mk_date_Inr)
  have "int_of_digits dd \<le> 31" using rng days_in_month_le[OF rng(1,2)] by (rule_tac order_trans)
  then have df: "day_field dd" unfolding d2 using dig rng(3) vals(1) d2 by (intro day_field_two) auto
  have mf: "month_field mm" unfolding m2 using dig rng(1,2) vals(2) m2 by (intro month_field_two) auto
  have yf: "year_field yyyy" using yy by (simp add: year_field_def)
  have sk: "skip_ws dd = dd" using dig by (simp add: d2 skip_ws_def digit_not_space)
  show ?thesis unfolding strptime_dmy_def sp using df mf yf mk by (simp add: sk)
qed

lemma normalize_no_space: "\<forall>c\<in>set s. \<not> is_space c \<Longrightarrow> normalize_space s = s"
  by (rule normalize_one_word)

lemma two_chars: "length s = 2 \<Longrightarrow> \<exists>a b. s = [a, b]"
  by (cases s; cases "tl s") auto

lemma four_chars: "length s = 4 \<Longrightarrow> \<exists>a b c d. s = [a, b, c, d]"
  by (cases s; cases "tl s"; cases "tl (tl s)"; cases "tl (tl (tl s))") auto

lemma range_patterns:
  assumes "length dd1 = 2" "list_all is_digit dd1" "length mm1 = 2" "list_all is_digit mm1"
      and "length dd2 = 2" "list_all is_digit dd2" "length mm2 = 2" "list_all is_digit mm2"
      and "length yyyy = 4" "list_all is_digit yyyy"
  defines "s \<equiv> dd1 @ ''.'' @ mm1 @ ''.-'' @ dd2 @ ''.'' @ mm2 @ ''.'' @ yyyy"
  shows "normalize_space s = s" "DATE_SINGLE_RE s = None"
    "DATE_RANGE_RE s = Some (dd1 @ CHR ''.'' # mm1, dd2 @ CHR ''.'' # mm2 @ CHR ''.'' # yyyy)"
proof -
  obtain a1 a2 where d1: "dd1 = [a1, a2]" using two_chars[OF assms(1)] by auto
  obtain b1 b2 where m1: "mm1 = [b1, b2]" using two_chars[OF assms(3)] by auto
  obtain a3 a4 where d2: "dd2 = [a3, a4]" using two_chars[OF assms(5)] by auto
  obtain b3 b4 where m2: "mm2 = [b3, b4]" using two_chars[OF assms(7)] by auto
  obtain y1 y2 y3 y4 where yy: "yyyy = [y1, y2, y3, y4]" using four_chars[OF assms(9)] by auto
  have dig: "is_digit a1" "is_digit a2" "is_digit b1" "is_digit b2" "is_digit a3" "is_digit a4"
    "is_digit b3" "is_digit b4" "is_digit y1" "is_digit y2" "is_digit y3" "is_digit y4"
    using assms(2,4,6,8,10) by (simp_all add: d1 m1 d2 m2 yy)
  note ns = dig[THEN digit_not_space]
  have s: "s = [a1, a2, CHR ''.'', b1, b2, CHR ''.'', CHR ''-'', a3, a4, CHR ''.'', b3, b4,
                CHR ''.'', y1, y2, y3, y4]"
    by (simp add: s_def d1 m1 d2 m2 yy)
  show "normalize_space s = s"
    by (rule normalize_no_space) (auto simp: s ns is_space_simps)
  have nd: "\<not> is_digit CHR ''-''" by (simp add: is_digit_def)
  show "DATE_SINGLE_RE s = None"
    by (simp add: DATE_SINGLE_RE_def s skip_ws_simps ns is_dmy_def nd)
  show "DATE_RANGE_RE s = Some (dd1 @ CHR ''.'' # mm1, dd2 @ CHR ''.'' # mm2 @ CHR ''.'' # yyyy)"
    by (simp add: DATE_RANGE_RE_def s skip_ws_simps ns dig is_space_simps is_dmy_def ws_to_end_def
          d1 m1 d2 m2 yy)
qed

text \<open>
  C6 (amended). On a text \<open>DD.MM.-DD.MM.YYYY\<close> (two-digit days and months, a four-digit
  year) whose year is at least 1000 and whose two day-month pairs are dates of that year,
  \<^verbatim>\<open>parse_dateinfo\<close> returns the range of these two dates; the year of the start date
  equals the year of the end date, which is the year written in the text. In particular
  \<open>18.02.-27.05.2026\<close> gives the start date 2026-02-18 and the end date 2026-05-27.
\<close>

theorem parse_dateinfo_range:
  assumes "length dd1 = 2" "list_all is_digit dd1" "length mm1 = 2" "list_all is_digit mm1"
      and "length dd2 = 2" "list_all is_digit dd2" "length mm2 = 2" "list_all is_digit mm2"
      and "length yyyy = 4" "list_all is_digit yyyy"
      and "1000 \<le> int_of_digits yyyy"
      and "mk_date (int_of_digits yyyy) (int_of_digits mm1) (int_of_digits dd1) = Inr start_d"
      and "mk_date (int_of_digits yyyy) (int_of_digits mm2) (int_of_digits dd2) = Inr end_d"
  shows "parse_dateinfo (dd1 @ ''.'' @ mm1 @ ''.-'' @ dd2 @ ''.'' @ mm2 @ ''.'' @ yyyy)
           = Inr (DateRange start_d end_d)
       \<and> year start_d = year end_d \<and> year end_d = int_of_digits yyyy
       \<and> parse_dateinfo ''18.02.-27.05.2026'' = Inr (DateRange 739665 739763)
       \<and> isoformat 739665 = ''2026-02-18'' \<and> isoformat 739763 = ''2026-05-27''"
proof -
  have gen: "parse_dateinfo (dd1 @ ''.'' @ mm1 @ ''.-'' @ dd2 @ ''.'' @ mm2 @ ''.'' @ yyyy)
           = Inr (DateRange start_d end_d)
       \<and> year start_d = year end_d \<and> year end_d = int_of_digits yyyy"
    if sh: "length dd1 = 2" "list_all is_digit dd1" "length mm1 = 2" "list_all is_digit mm1"
      "length dd2 = 2" "list_all is_digit dd2" "length mm2 = 2" "list_all is_digit mm2"
      "length yyyy = 4" "list_all is_digit yyyy"
      and y1000: "1000 \<le> int_of_digits yyyy"
      and mk1: "mk_date (int_of_digits yyyy) (int_of_digits mm1) (int_of_digits dd1) = Inr start_d"
      and mk2: "mk_date (int_of_digits yyyy) (int_of_digits mm2) (int_of_digits dd2) = Inr end_d"
    for dd1 mm1 dd2 mm2 yyyy start_d end_d
  proof -
    let ?Y = "int_of_digits yyyy"
    note R = range_patterns[OF sh]
    have e: "strptime_dmy (dd2 @ CHR ''.'' # mm2 @ CHR ''.'' # yyyy) = Inr end_d"
      by (rule strptime_dmy_shape[OF sh(5-10) mk2])
    have ye: "year end_d = ?Y" by (rule mk_date_ymd(1)[OF mk2])
    have ys: "year start_d = ?Y" by (rule mk_date_ymd(1)[OF mk1])
    have y9: "?Y \<le> 9999" using mk2 by (simp add: mk_date_Inr)
    let ?ys = "str_nat (nat ?Y)"
    have l4: "length ?ys = 4" using y1000 y9 by (intro length_str_nat_4) auto
    have iv: "int_of_digits ?ys = ?Y" using y1000 by (simp add: int_of_digits_str_nat)
    have st: "strptime_dmy (dd1 @ CHR ''.'' # mm1 @ CHR ''.'' # ?ys) = Inr start_d"
      by (rule strptime_dmy_shape[OF sh(1-4) l4 str_nat_digits]) (simp add: iv mk1)
    have "parse_dateinfo (dd1 @ ''.'' @ mm1 @ ''.-'' @ dd2 @ ''.'' @ mm2 @ ''.'' @ yyyy)
           = Inr (DateRange start_d end_d)"
      unfolding parse_dateinfo_def Let_def R by (simp add: e ye st)
    then show ?thesis using ye ys by simp
  qed
  have md: "mk_date 2026 2 18 = Inr 739665" "mk_date 2026 5 27 = Inr 739763"
    by (simp_all add: mk_date_def days_in_month_def DAYS_IN_MONTH_def is_leap_def ymd2ord_def
          days_before_year_def days_before_month_def DAYS_BEFORE_MONTH_def)
  have inst: "parse_dateinfo ''18.02.-27.05.2026'' = Inr (DateRange 739665 739763)"
    using gen[of "''18''" "''02''" "''27''" "''05''" "''2026''" 739665 739763] md
    by (simp add: digit_simps int_of_digits_def)
  have iso: "isoformat 739665 = ''2026-02-18''" "isoformat 739763 = ''2026-05-27''"
    by (simp_all add: isoformat_def ord2ymd_def Let_def zero_pad_def str_nat.simps
          DAYS_BEFORE_MONTH_def DAYS_IN_MONTH_def char_of_eq_iff)
  show ?thesis using gen[OF assms] inst iso by simp
qed

theorem parse_dateinfo_range_witness:
  "mk_date 2024 2 29 = Inr 738945 \<and> mk_date 2024 3 7 = Inr 738952
   \<and> parse_dateinfo (''29'' @ ''.'' @ ''02'' @ ''.-'' @ ''07'' @ ''.'' @ ''03'' @ ''.'' @ ''2024'')
       = Inr (DateRange 738945 738952)
   \<and> year 738945 = 2024 \<and> year 738952 = 2024"
proof -
  have md: "mk_date 2024 2 29 = Inr 738945" "mk_date 2024 3 7 = Inr 738952"
    by (simp_all add: mk_date_def days_in_month_def DAYS_IN_MONTH_def is_leap_def ymd2ord_def
          days_before_year_def days_before_month_def DAYS_BEFORE_MONTH_def)
  have iv: "int_of_digits ''29'' = 29" "int_of_digits ''02'' = 2" "int_of_digits ''07'' = 7"
    "int_of_digits ''03'' = 3" "int_of_digits ''2024'' = 2024"
    by (simp_all add: digit_simps int_of_digits_def)
  note T = parse_dateinfo_range[of "''29''" "''02''" "''07''" "''03''" "''2024''" 738945 738952,
      unfolded iv]
  have "parse_dateinfo (''29'' @ ''.'' @ ''02'' @ ''.-'' @ ''07'' @ ''.'' @ ''03'' @ ''.'' @ ''2024'')
       = Inr (DateRange 738945 738952)
     \<and> year 738945 = year 738952 \<and> year 738952 = 2024"
    using T[OF _ _ _ _ _ _ _ _ _ _ _ md] by (simp add: digit_simps)
  then show ?thesis using md by simp
qed

text \<open>
  C6 as stated fails when the start is not a date of the inherited year: 29.02. is a day
  of 2024 but not of 2026, and on \<open>29.02.-27.05.2026\<close> the second \<^verbatim>\<open>strptime\<close> raises
  \<^verbatim>\<open>ValueError\<close>; no range is returned.
\<close>

theorem parse_dateinfo_range_invalid_start:
  "mk_date 2026 5 27 = Inr 739763 \<and> mk_date 2024 2 29 = Inr 738945
   \<and> parse_dateinfo ''29.02.-27.05.2026'' = Inl ValueError"
  by (simp add: parse_dateinfo_def normalize_space_def strip_def is_space_def
        DATE_SINGLE_RE_def DATE_RANGE_RE_def skip_ws_def is_dmy_def is_digit_def ws_to_end_def
        strptime_dmy_def year_field_def int_of_digits_def digit_val_def mk_date_def
        days_in_month_def DAYS_IN_MONTH_def is_leap_def ymd2ord_def days_before_year_def
        days_before_month_def DAYS_BEFORE_MONTH_def year_def ord2ymd_def Let_def str_nat.simps
        char_of_eq_iff)

text \<open>Outside the amended claim: for a year below 1000 the f-string writes the inherited
  year without leading zeros, which \<^verbatim>\<open>%Y\<close> does not accept, so the code raises although
  both are dates of that year.\<close>

lemma parse_dateinfo_range_year_below_1000:
  "mk_date 999 2 18 = Inr 364561 \<and> parse_dateinfo ''18.02.-27.05.0999'' = Inl ValueError"
  by (simp add: parse_dateinfo_def normalize_space_def strip_def is_space_def
        DATE_SINGLE_RE_def DATE_RANGE_RE_def skip_ws_def is_dmy_def is_digit_def ws_to_end_def
        strptime_dmy_def year_field_def int_of_digits_def digit_val_def mk_date_def
        days_in_month_def DAYS_IN_MONTH_def is_leap_def ymd2ord_def days_before_year_def
        days_before_month_def DAYS_BEFORE_MONTH_def year_def ord2ymd_def Let_def str_nat.simps
        char_of_eq_iff)

subsection \<open>The order of two date-time texts\<close>

lemma append_less_append: "xs @ ys < xs @ zs \<longleftrightarrow> ys < (zs :: 'a::linorder list)"
  by (induction xs) simp_all

lemma zero_pad_2:
  assumes "0 \<le> n" "n \<le> 99"
  shows "\<exists>q r. q < 10 \<and> r < 10 \<and> n = int (10 * q + r)
           \<and> zero_pad 2 n = [char_of (48 + q), char_of (48 + r)]"
proof (cases "nat n < 10")
  case True
  have z: "char_of (48 + (0::nat)) = CHR ''0''" by (simp add: char_of_eq_iff)
  have "zero_pad 2 n = [char_of (48 + (0::nat)), char_of (48 + nat n)]"
    using True unfolding z by (simp add: zero_pad_def str_nat.simps[of "nat n"])
  moreover have "n = int (10 * 0 + nat n)" using assms by simp
  moreover have "(0::nat) < 10" by simp
  ultimately show ?thesis using True by blast
next
  case False
  have q: "nat n div 10 < 10" using assms by (simp add: div_less_iff_less_mult)
  have "zero_pad 2 n = [char_of (48 + nat n div 10), char_of (48 + nat n mod 10)]"
    using False q
    by (simp add: zero_pad_def str_nat.simps[of "nat n"] str_nat.simps[of "nat n div 10"])
  moreover have "n = int (10 * (nat n div 10) + nat n mod 10)" using assms by simp
  moreover have "nat n mod 10 < 10" by simp
  ultimately show ?thesis using q by blast
qed

lemma digit_char_less:
  assumes "x < 10" "y < 10"
  shows "char_of (48 + x :: nat) < char_of (48 + y) \<longleftrightarrow> x < y"
    and "char_of (48 + x :: nat) = char_of (48 + y) \<longleftrightarrow> x = y"
proof -
  have x: "(of_char (char_of (48 + x)) :: nat) = 48 + x" using assms by simp
  have y: "(of_char (char_of (48 + y)) :: nat) = 48 + y" using assms by simp
  show "char_of (48 + x :: nat) < char_of (48 + y) \<longleftrightarrow> x < y"
    by (simp only: less_char_def x y) simp
  show "char_of (48 + x :: nat) = char_of (48 + y) \<longleftrightarrow> x = y"
    using x y by (metis add_left_cancel)
qed

lemma two_chars_less:
  "[c1, c2] @ s < [d1, d2] @ t
     \<longleftrightarrow> c1 < d1 \<or> (c1 = d1 \<and> (c2 < d2 \<or> (c2 = d2 \<and> s < t)))"
  for c1 :: char
  by auto

lemma zero_pad_2_less:
  assumes "0 \<le> a" "a \<le> 99" "0 \<le> b" "b \<le> 99"
  shows "zero_pad 2 a @ s < zero_pad 2 b @ t \<longleftrightarrow> a < b \<or> (a = b \<and> s < t)"
proof -
  obtain q r where a: "q < 10" "r < 10" "a = int (10 * q + r)"
    "zero_pad 2 a = [char_of (48 + q), char_of (48 + r)]"
    using zero_pad_2[OF assms(1,2)] by blast
  obtain q' r' where b: "q' < 10" "r' < 10" "b = int (10 * q' + r')"
    "zero_pad 2 b = [char_of (48 + q'), char_of (48 + r')]"
    using zero_pad_2[OF assms(3,4)] by blast
  have lt: "a < b \<longleftrightarrow> q < q' \<or> (q = q' \<and> r < r')"
    unfolding a(3) b(3) using a(1,2) b(1,2) by linarith
  have gt: "b < a \<longleftrightarrow> q' < q \<or> (q' = q \<and> r' < r)"
    unfolding a(3) b(3) using a(1,2) b(1,2) by linarith
  have "a = b \<longleftrightarrow> \<not> a < b \<and> \<not> b < a" by auto
  then have eq: "a = b \<longleftrightarrow> q = q' \<and> r = r'"
    unfolding lt gt by auto
  show ?thesis
    unfolding a(4) b(4) lt eq two_chars_less
      digit_char_less[OF a(1) b(1)] digit_char_less[OF a(2) b(2)]
    by blast
qed

lemma datetime_isoformat_less:
  assumes "valid_time st" "valid_time en"
  shows "datetime_isoformat d st < datetime_isoformat d en
     \<longleftrightarrow> hour st < hour en \<or> (hour st = hour en \<and> minute st < minute en)"
proof -
  have h: "0 \<le> hour st" "hour st \<le> 99" "0 \<le> hour en" "hour en \<le> 99"
    and m: "0 \<le> minute st" "minute st \<le> 99" "0 \<le> minute en" "minute en \<le> 99"
    using assms by (auto simp: valid_time_def)
  have "datetime_isoformat d st < datetime_isoformat d en
     \<longleftrightarrow> zero_pad 2 (hour st) @ (CHR '':'' # zero_pad 2 (minute st) @ '':00'')
         < zero_pad 2 (hour en) @ (CHR '':'' # zero_pad 2 (minute en) @ '':00'')"
    by (simp add: datetime_isoformat_def append_less_append)
  also have "\<dots> \<longleftrightarrow> hour st < hour en
        \<or> (hour st = hour en \<and> zero_pad 2 (minute st) @ '':00'' < zero_pad 2 (minute en) @ '':00'')"
    by (simp add: zero_pad_2_less[OF h])
  also have "\<dots> \<longleftrightarrow> hour st < hour en \<or> (hour st = hour en \<and> minute st < minute en)"
    by (simp add: zero_pad_2_less[OF m])
  finally show ?thesis .
qed


subsection \<open>The shape of the events\<close>

lemma time_of_group_valid: "time_of_group g = Inr t \<Longrightarrow> valid_time t"
  by (auto simp: time_of_group_def mk_time_def valid_time_def split: list.splits if_splits)

lemma parse_time_range_cases:
  assumes "parse_time_range s = Inr tr"
  shows "tr = (None, None, True) \<or> tr = (None, None, False)
       \<or> (\<exists>st en. tr = (Some st, Some en, False) \<and> valid_time st \<and> valid_time en)"
  using assms
  by (auto simp: parse_time_range_def Let_def time_of_group_valid
        split: if_splits option.splits sum.splits prod.splits)

lemma date_add_valid: "date_add d n = Inr x \<Longrightarrow> valid_date x"
  by (auto simp: date_add_def valid_date_def Let_def split: sum.splits if_splits)

lemma weekly_loop_valid:
  "weekly_loop d e out = Inr ds \<Longrightarrow> valid_date d \<Longrightarrow> \<forall>x\<in>set out. valid_date x
    \<Longrightarrow> \<forall>x\<in>set ds. valid_date x"
proof (induction d e out rule: weekly_loop.induct)
  case (1 d e out)
  show ?case
  proof (cases "d \<le> e")
    case True
    then obtain d' where da: "date_add d 7 = Inr d'"
      using 1(2) by (subst (asm) weekly_loop.simps) (auto split: sum.splits)
    then have "weekly_loop d' e (out @ [d]) = Inr ds"
      using 1(2) True by (subst (asm) weekly_loop.simps) simp
    then show ?thesis using 1(1)[OF True da] 1(3,4) date_add_valid[OF da] by simp
  next
    case False
    then have "ds = out" using 1(2) by (subst (asm) weekly_loop.simps) simp
    then show ?thesis using 1(4) by simp
  qed
qed

lemma strptime_dmy_valid: "strptime_dmy s = Inr d \<Longrightarrow> valid_date d"
  by (auto simp: strptime_dmy_def mk_date_valid split: list.splits if_splits)

lemma parse_dateinfo_valid:
  "parse_dateinfo s = Inr (Single d) \<Longrightarrow> valid_date d"
  "parse_dateinfo s = Inr (DateRange d1 d2) \<Longrightarrow> valid_date d1 \<and> valid_date d2"
  by (auto simp: parse_dateinfo_def Let_def strptime_dmy_valid
        split: option.splits sum.splits prod.splits if_splits)

lemma occurrences_valid:
  assumes "occurrences today la w di = Inr ds" "parse_dateinfo s = Inr di"
  shows "\<forall>d\<in>set ds. valid_date d"
proof (cases di)
  case (Single d)
  then show ?thesis using assms parse_dateinfo_valid(1)[of s d] by (auto simp: occurrences_def)
next
  case (DateRange d1 d2)
  then have dw: "daterange_weekly d1 d2 w = Inr ds" using assms(1) by (simp add: occurrences_def)
  then obtain f0 where f0: "next_date_for_weekday d1 w = Inr f0"
    by (auto simp: daterange_weekly_def split: sum.splits)
  then have v0: "valid_date f0" by (auto simp: next_date_for_weekday_def Let_def date_add_valid)
  show ?thesis
  proof (cases "f0 < d1")
    case True
    then obtain f where f: "date_add f0 7 = Inr f" and "weekly_loop f d2 [] = Inr ds"
      using dw f0 by (auto simp: daterange_weekly_def split: sum.splits)
    then show ?thesis using weekly_loop_valid[of f d2 "[]" ds] date_add_valid[OF f] by simp
  next
    case False
    then have "weekly_loop f0 d2 [] = Inr ds" using dw f0 by (simp add: daterange_weekly_def)
    then show ?thesis using weekly_loop_valid[of f0 d2 "[]" ds] v0 by simp
  qed
next
  case Phase
  then obtain h f where "next_date_for_weekday today w = Inr f" "weekly_loop f h [] = Inr ds"
    using assms(1) by (auto simp: occurrences_def split: sum.splits)
  then show ?thesis using weekly_loop_valid[of f h "[]" ds]
    by (auto simp: next_date_for_weekday_def Let_def date_add_valid)
qed

lemma process_row_event:
  assumes "process_row today la r [] = Inr new" "ev \<in> set new"
  shows "\<exists>d. valid_date d
          \<and> ((parse_time_range (time_str r) = Inr (None, None, True) \<and> ev = all_day_event r d)
             \<or> (\<exists>st en. parse_time_range (time_str r) = Inr (Some st, Some en, False)
                    \<and> valid_time st \<and> valid_time en \<and> ev = timed_event r d st en))"
proof (cases "DOW_MAP (dow r)")
  case None
  then show ?thesis using assms by (simp add: process_row_def)
next
  case (Some w)
  then obtain tr where tr: "parse_time_range (time_str r) = Inr tr"
    using assms(1) by (auto simp: process_row_def split: sum.splits)
  then obtain di where di: "parse_dateinfo (dateinfo r) = Inr di"
    using assms(1) Some by (auto simp: process_row_def split: sum.splits)
  obtain ds where ds: "occurrences today la w di = Inr ds"
    and new: "new = concat (map (\<lambda>d. add_event r tr d []) ds)"
    using assms(1) by (auto simp: process_row_occurrences[OF Some tr di] split: sum.splits)
  from assms(2) new obtain d where d: "d \<in> set ds" "ev \<in> set (add_event r tr d [])" by auto
  have vd: "valid_date d" using occurrences_valid[OF ds di] d(1) by simp
  from parse_time_range_cases[OF tr] show ?thesis
  proof (elim disjE exE conjE)
    assume a: "tr = (None, None, True)"
    then have "ev = all_day_event r d" using d(2) by (simp add: add_event_def)
    then show ?thesis using vd tr a by blast
  next
    assume "tr = (None, None, False)"
    then show ?thesis using d(2) by (simp add: add_event_def)
  next
    fix st en assume a: "tr = (Some st, Some en, False)" "valid_time st" "valid_time en"
    then have "ev = timed_event r d st en" using d(2) by (simp add: add_event_def)
    then show ?thesis using vd tr a by blast
  qed
qed

lemma iso_739621: "isoformat 739621 = ''2026-01-05''"
  using iso5 by simp

lemma zero_pad_examples:
  "zero_pad 2 18 = ''18''" "zero_pad 2 15 = ''15''" "zero_pad 2 19 = ''19''"
  "zero_pad 2 45 = ''45''"
  by (simp_all add: zero_pad_def str_nat.simps char_of_eq_iff)

text \<open>
  C1 (amended). Every event \<^verbatim>\<open>build_events\<close> returns comes from a row of the input and
  is of one of two shapes. Either the time text of the row is the all-day form, and the
  event is all-day, has no end, and starts at the ISO text of a date. Or the time text
  of the row gives two clock times, and the event is not all-day, its start is the ISO
  text of a date followed by the first clock time and its end the ISO text of the same
  date followed by the second clock time. The end is later than the start exactly when
  the second clock time of the text is later than the first; nothing else orders them.
\<close>

theorem build_events_event_shape:
  assumes "build_events today la rows = Inr evs" "ev \<in> set evs"
  shows "\<exists>r d. r \<in> set rows \<and> valid_date d
      \<and> ((parse_time_range (time_str r) = Inr (None, None, True)
            \<and> ev_allDay ev \<and> ev_end ev = None \<and> ev_start ev = isoformat d)
         \<or> (\<exists>st en. parse_time_range (time_str r) = Inr (Some st, Some en, False)
               \<and> valid_time st \<and> valid_time en \<and> \<not> ev_allDay ev
               \<and> ev_start ev = isoformat d @ ''T'' @ zero_pad 2 (hour st) @ '':''
                                  @ zero_pad 2 (minute st) @ '':00''
               \<and> ev_end ev = Some (isoformat d @ ''T'' @ zero_pad 2 (hour en) @ '':''
                                      @ zero_pad 2 (minute en) @ '':00'')
               \<and> (ev_start ev < the (ev_end ev)
                    \<longleftrightarrow> hour st < hour en \<or> (hour st = hour en \<and> minute st < minute en))))"
proof -
  let ?f = "\<lambda>r. projr (process_row today la r [])"
  have ok: "\<forall>r\<in>set rows. \<exists>new. process_row today la r [] = Inr new"
    and evs: "evs = sort_key sort_key_ev (concat (map ?f rows))"
    using assms(1) by (simp_all add: build_events_Inr)
  from assms(2) evs obtain r where r: "r \<in> set rows" "ev \<in> set (?f r)" by auto
  then obtain new where new: "process_row today la r [] = Inr new" using ok by auto
  then have "ev \<in> set new" using r(2) by simp
  from process_row_event[OF new this] obtain d where vd: "valid_date d"
    and c: "(parse_time_range (time_str r) = Inr (None, None, True) \<and> ev = all_day_event r d)
             \<or> (\<exists>st en. parse_time_range (time_str r) = Inr (Some st, Some en, False)
                    \<and> valid_time st \<and> valid_time en \<and> ev = timed_event r d st en)"
    by blast
  from c show ?thesis
  proof (elim disjE exE conjE)
    assume a: "parse_time_range (time_str r) = Inr (None, None, True)" "ev = all_day_event r d"
    have "ev_allDay ev \<and> ev_end ev = None \<and> ev_start ev = isoformat d"
      by (simp add: a(2) all_day_event_def)
    then show ?thesis using r(1) vd a(1) by blast
  next
    fix st en
    assume a: "parse_time_range (time_str r) = Inr (Some st, Some en, False)"
      "valid_time st" "valid_time en" "ev = timed_event r d st en"
    have s: "ev_start ev = datetime_isoformat d st" "ev_end ev = Some (datetime_isoformat d en)"
      "\<not> ev_allDay ev"
      by (simp_all add: a(4) timed_event_def)
    have l: "ev_start ev < the (ev_end ev)
         \<longleftrightarrow> hour st < hour en \<or> (hour st = hour en \<and> minute st < minute en)"
      unfolding s using datetime_isoformat_less[OF a(2,3)] by simp
    have "\<not> ev_allDay ev
        \<and> ev_start ev = isoformat d @ ''T'' @ zero_pad 2 (hour st) @ '':''
                                  @ zero_pad 2 (minute st) @ '':00''
        \<and> ev_end ev = Some (isoformat d @ ''T'' @ zero_pad 2 (hour en) @ '':''
                                      @ zero_pad 2 (minute en) @ '':00'')"
      using s by (simp add: datetime_isoformat_def)
    then show ?thesis using r(1) vd a(1,2,3) l by blast
  qed
qed

theorem build_events_event_shape_witness:
  "build_events 739621 28
     [\<lparr>title = ''Yoga'', href = None, dow = ''Mo'', time_str = ''18:15-19:45 Uhr'',
       dateinfo = ''05.01.2026'', location = ''Halle 1'', rest = []\<rparr>]
    = Inr [\<lparr>ev_title = ''Yoga'', ev_url = None,
            ev_extendedProps =
              \<lparr>p_dow = ''Mo'', p_time = ''18:15-19:45 Uhr'', p_dateinfo = ''05.01.2026'',
               p_location = ''Halle 1'', p_notes = [],
               p_source = ''https://www.zssw.unibe.ch/usp/zms/search.php'',
               p_tz = ''Europe/Zurich''\<rparr>,
            ev_start = ''2026-01-05T18:15:00'', ev_end = Some ''2026-01-05T19:45:00'',
            ev_allDay = False\<rparr>]
   \<and> parse_time_range ''18:15-19:45 Uhr''
       = Inr (Some \<lparr>hour = 18, minute = 15\<rparr>, Some \<lparr>hour = 19, minute = 45\<rparr>, False)
   \<and> (\<exists>d st en. valid_date d
         \<and> parse_time_range ''18:15-19:45 Uhr'' = Inr (Some st, Some en, False)
         \<and> valid_time st \<and> valid_time en
         \<and> ''2026-01-05T18:15:00'' = isoformat d @ ''T'' @ zero_pad 2 (hour st) @ '':''
                                  @ zero_pad 2 (minute st) @ '':00''
         \<and> ''2026-01-05T19:45:00'' = isoformat d @ ''T'' @ zero_pad 2 (hour en) @ '':''
                                  @ zero_pad 2 (minute en) @ '':00''
         \<and> (''2026-01-05T18:15:00'' < ''2026-01-05T19:45:00''
              \<longleftrightarrow> hour st < hour en \<or> (hour st = hour en \<and> minute st < minute en)))"
proof -
  let ?r = "\<lparr>title = ''Yoga'', href = None, dow = ''Mo'', time_str = ''18:15-19:45 Uhr'',
               dateinfo = ''05.01.2026'', location = ''Halle 1'', rest = []\<rparr>"
  let ?ev = "\<lparr>ev_title = ''Yoga'', ev_url = None,
            ev_extendedProps =
              \<lparr>p_dow = ''Mo'', p_time = ''18:15-19:45 Uhr'', p_dateinfo = ''05.01.2026'',
               p_location = ''Halle 1'', p_notes = [],
               p_source = ''https://www.zssw.unibe.ch/usp/zms/search.php'',
               p_tz = ''Europe/Zurich''\<rparr>,
            ev_start = ''2026-01-05T18:15:00'', ev_end = Some ''2026-01-05T19:45:00'',
            ev_allDay = False\<rparr>"
  have h1: "build_events 739621 28 [?r] = Inr [?ev]"
    by (simp add: build_events_def process_row_def DOW_MAP_simps parse_time_range_examples
          parse_dateinfo_examples add_event_def timed_event_def props_of_def SEARCH_URL_def
          DEFAULT_TIMEZONE_def datetime_isoformat_def iso_739621 zero_pad_examples)
  have h2: "?ev \<in> set [?ev]" by simp
  have p: "parse_time_range ''18:15-19:45 Uhr''
       = Inr (Some \<lparr>hour = 18, minute = 15\<rparr>, Some \<lparr>hour = 19, minute = 45\<rparr>, False)"
    by (rule parse_time_range_examples)
  have e: "\<exists>d st en. valid_date d
         \<and> parse_time_range ''18:15-19:45 Uhr'' = Inr (Some st, Some en, False)
         \<and> valid_time st \<and> valid_time en
         \<and> ''2026-01-05T18:15:00'' = isoformat d @ ''T'' @ zero_pad 2 (hour st) @ '':''
                                  @ zero_pad 2 (minute st) @ '':00''
         \<and> ''2026-01-05T19:45:00'' = isoformat d @ ''T'' @ zero_pad 2 (hour en) @ '':''
                                  @ zero_pad 2 (minute en) @ '':00''
         \<and> (''2026-01-05T18:15:00'' < ''2026-01-05T19:45:00''
              \<longleftrightarrow> hour st < hour en \<or> (hour st = hour en \<and> minute st < minute en))"
    using build_events_event_shape[OF h1 h2] by (simp add: p)
  show ?thesis by (intro conjI h1 p e)
qed

text \<open>
  C1 as stated fails on the time text \<open>19:45-18:15 Uhr\<close>: the event ends at 18:15, before
  it starts at 19:45 on the same day.
\<close>

theorem build_events_end_before_start:
  "build_events 739621 28
     [\<lparr>title = ''Yoga'', href = None, dow = ''Mo'', time_str = ''19:45-18:15 Uhr'',
       dateinfo = ''05.01.2026'', location = ''Halle 1'', rest = []\<rparr>]
    = Inr [\<lparr>ev_title = ''Yoga'', ev_url = None,
            ev_extendedProps =
              \<lparr>p_dow = ''Mo'', p_time = ''19:45-18:15 Uhr'', p_dateinfo = ''05.01.2026'',
               p_location = ''Halle 1'', p_notes = [],
               p_source = ''https://www.zssw.unibe.ch/usp/zms/search.php'',
               p_tz = ''Europe/Zurich''\<rparr>,
            ev_start = ''2026-01-05T19:45:00'', ev_end = Some ''2026-01-05T18:15:00'',
            ev_allDay = False\<rparr>]
   \<and> ''2026-01-05T18:15:00'' < ''2026-01-05T19:45:00''"
  by (simp add: build_events_def process_row_def DOW_MAP_simps parse_time_range_examples
        parse_dateinfo_examples add_event_def timed_event_def props_of_def SEARCH_URL_def
        DEFAULT_TIMEZONE_def datetime_isoformat_def iso_739621 zero_pad_examples
        less_char_def)

subsection \<open>A row with a single date\<close>

lemma build_events_insert_row:
  assumes "process_row today la r [] = Inr new"
      and "build_events today la (xs @ r # ys) = Inr evs"
  shows "\<exists>evs'. build_events today la (xs @ ys) = Inr evs' \<and> mset evs = mset new + mset evs'"
proof -
  let ?f = "\<lambda>r. projr (process_row today la r [])"
  have ok: "\<forall>x\<in>set (xs @ r # ys). \<exists>new. process_row today la x [] = Inr new"
    and evs: "evs = sort_key sort_key_ev (concat (map ?f (xs @ r # ys)))"
    using assms(2) by (simp_all add: build_events_Inr)
  define evs' where "evs' = sort_key sort_key_ev (concat (map ?f (xs @ ys)))"
  have "build_events today la (xs @ ys) = Inr evs'"
    using ok by (simp add: build_events_Inr evs'_def)
  moreover have "mset evs = mset new + mset evs'"
    by (simp add: evs evs'_def assms(1))
  ultimately show ?thesis by blast
qed

text \<open>
  C10. A row with a recognized weekday code, a date text that parses as the single date
  \<open>d\<close> and a recognized time text yields exactly one event, dated \<open>d\<close>: its start is
  the ISO text of \<open>d\<close> with no end for an all-day time range, and start and end are the
  ISO text of \<open>d\<close> followed by the two clock times for a time range with both clock
  times; title, link and properties are those of the row. Alone the row gives that one
  event; among other rows it adds that one event to what the other rows give. Nothing
  relates \<open>d\<close> to the weekday index \<open>w\<close> of the row; the witness has a Monday date
  on a row with code \<open>Di\<close> (Tuesday), and its events start on 2026-01-05.
\<close>

theorem build_events_single:
  assumes "DOW_MAP (dow r) = Some w"
      and "parse_time_range (time_str r) = Inr tr"
      and "parse_dateinfo (dateinfo r) = Inr (Single d)"
  shows "(tr = (None, None, True) \<longrightarrow>
            (let ev = \<lparr>ev_title = title r, ev_url = href r,
                       ev_extendedProps =
                         \<lparr>p_dow = dow r, p_time = time_str r, p_dateinfo = dateinfo r,
                          p_location = location r, p_notes = rest r,
                          p_source = SEARCH_URL, p_tz = DEFAULT_TIMEZONE\<rparr>,
                       ev_start = isoformat d, ev_end = None, ev_allDay = True\<rparr>
             in build_events today la [r] = Inr [ev]
                \<and> (build_events today la (xs @ r # ys) = Inr evs \<longrightarrow>
                     (\<exists>evs'. build_events today la (xs @ ys) = Inr evs'
                        \<and> mset evs = add_mset ev (mset evs')))))
       \<and> (tr = (Some st, Some en, False) \<longrightarrow>
            (let ev = \<lparr>ev_title = title r, ev_url = href r,
                       ev_extendedProps =
                         \<lparr>p_dow = dow r, p_time = time_str r, p_dateinfo = dateinfo r,
                          p_location = location r, p_notes = rest r,
                          p_source = SEARCH_URL, p_tz = DEFAULT_TIMEZONE\<rparr>,
                       ev_start = isoformat d @ ''T'' @ zero_pad 2 (hour st) @ '':''
                                    @ zero_pad 2 (minute st) @ '':00'',
                       ev_end = Some (isoformat d @ ''T'' @ zero_pad 2 (hour en) @ '':''
                                        @ zero_pad 2 (minute en) @ '':00''),
                       ev_allDay = False\<rparr>
             in build_events today la [r] = Inr [ev]
                \<and> (build_events today la (xs @ r # ys) = Inr evs \<longrightarrow>
                     (\<exists>evs'. build_events today la (xs @ ys) = Inr evs'
                        \<and> mset evs = add_mset ev (mset evs')))))
       \<and> valid_date d"
proof -
  have p: "process_row today la r [] = Inr (add_event r tr d [])"
    by (simp add: process_row_occurrences[OF assms] occurrences_def)
  have s: "build_events today la [r] = Inr (add_event r tr d [])"
    by (simp add: build_events_single_row p add_event_def split: prod.splits option.splits)
  have a: "all_day_event r d
        = \<lparr>ev_title = title r, ev_url = href r,
           ev_extendedProps =
             \<lparr>p_dow = dow r, p_time = time_str r, p_dateinfo = dateinfo r,
              p_location = location r, p_notes = rest r,
              p_source = SEARCH_URL, p_tz = DEFAULT_TIMEZONE\<rparr>,
           ev_start = isoformat d, ev_end = None, ev_allDay = True\<rparr>"
    by (simp add: all_day_event_def props_of_def)
  have t: "timed_event r d st en
        = \<lparr>ev_title = title r, ev_url = href r,
           ev_extendedProps =
             \<lparr>p_dow = dow r, p_time = time_str r, p_dateinfo = dateinfo r,
              p_location = location r, p_notes = rest r,
              p_source = SEARCH_URL, p_tz = DEFAULT_TIMEZONE\<rparr>,
           ev_start = isoformat d @ ''T'' @ zero_pad 2 (hour st) @ '':''
                        @ zero_pad 2 (minute st) @ '':00'',
           ev_end = Some (isoformat d @ ''T'' @ zero_pad 2 (hour en) @ '':''
                            @ zero_pad 2 (minute en) @ '':00''),
           ev_allDay = False\<rparr>"
    by (simp add: timed_event_def props_of_def datetime_isoformat_def)
  have v: "valid_date d" using assms(3) by (rule parse_dateinfo_valid(1))
  have "(tr = (None, None, True) \<longrightarrow>
            build_events today la [r] = Inr [all_day_event r d]
            \<and> (build_events today la (xs @ r # ys) = Inr evs \<longrightarrow>
                 (\<exists>evs'. build_events today la (xs @ ys) = Inr evs'
                    \<and> mset evs = add_mset (all_day_event r d) (mset evs'))))
       \<and> (tr = (Some st, Some en, False) \<longrightarrow>
            build_events today la [r] = Inr [timed_event r d st en]
            \<and> (build_events today la (xs @ r # ys) = Inr evs \<longrightarrow>
                 (\<exists>evs'. build_events today la (xs @ ys) = Inr evs'
                    \<and> mset evs = add_mset (timed_event r d st en) (mset evs'))))"
    using s build_events_insert_row[OF p, of xs ys evs]
    by (auto simp: add_event_def)
  then show ?thesis unfolding a t Let_def using v by simp
qed

theorem build_events_single_witness:
  "DOW_MAP ''Di'' = Some 1 \<and> weekday 739621 = 0
   \<and> parse_time_range ''18:15-19:45 Uhr''
       = Inr (Some \<lparr>hour = 18, minute = 15\<rparr>, Some \<lparr>hour = 19, minute = 45\<rparr>, False)
   \<and> parse_time_range ''ganzer Tag'' = Inr (None, None, True)
   \<and> parse_dateinfo ''05.01.2026'' = Inr (Single 739621)
   \<and> build_events 739000 28
        [\<lparr>title = ''Yoga'', href = None, dow = ''Di'', time_str = ''18:15-19:45 Uhr'',
          dateinfo = ''05.01.2026'', location = ''Halle 1'', rest = []\<rparr>]
       = Inr [\<lparr>ev_title = ''Yoga'', ev_url = None,
               ev_extendedProps =
                 \<lparr>p_dow = ''Di'', p_time = ''18:15-19:45 Uhr'', p_dateinfo = ''05.01.2026'',
                  p_location = ''Halle 1'', p_notes = [],
                  p_source = ''https://www.zssw.unibe.ch/usp/zms/search.php'',
                  p_tz = ''Europe/Zurich''\<rparr>,
               ev_start = ''2026-01-05T18:15:00'', ev_end = Some ''2026-01-05T19:45:00'',
               ev_allDay = False\<rparr>]
   \<and> build_events 739000 28
        [\<lparr>title = ''Yoga'', href = None, dow = ''Di'', time_str = ''ganzer Tag'',
          dateinfo = ''05.01.2026'', location = ''Halle 1'', rest = []\<rparr>]
       = Inr [\<lparr>ev_title = ''Yoga'', ev_url = None,
               ev_extendedProps =
                 \<lparr>p_dow = ''Di'', p_time = ''ganzer Tag'', p_dateinfo = ''05.01.2026'',
                  p_location = ''Halle 1'', p_notes = [],
                  p_source = ''https://www.zssw.unibe.ch/usp/zms/search.php'',
                  p_tz = ''Europe/Zurich''\<rparr>,
               ev_start = ''2026-01-05'', ev_end = None, ev_allDay = True\<rparr>]"
proof -
  let ?r = "\<lparr>title = ''Yoga'', href = None, dow = ''Di'', time_str = ''18:15-19:45 Uhr'',
          dateinfo = ''05.01.2026'', location = ''Halle 1'', rest = []\<rparr>"
  let ?g = "\<lparr>title = ''Yoga'', href = None, dow = ''Di'', time_str = ''ganzer Tag'',
          dateinfo = ''05.01.2026'', location = ''Halle 1'', rest = []\<rparr>"
  let ?st = "\<lparr>hour = 18, minute = 15\<rparr>"
  let ?en = "\<lparr>hour = 19, minute = 45\<rparr>"
  have h: "DOW_MAP (dow ?r) = Some 1" "parse_time_range (time_str ?r) = Inr (Some ?st, Some ?en, False)"
    "parse_dateinfo (dateinfo ?r) = Inr (Single 739621)"
    by (simp_all add: DOW_MAP_simps parse_time_range_examples parse_dateinfo_examples)
  have hg: "DOW_MAP (dow ?g) = Some 1" "parse_time_range (time_str ?g) = Inr (None, None, True)"
    "parse_dateinfo (dateinfo ?g) = Inr (Single 739621)"
    by (simp_all add: DOW_MAP_simps parse_time_range_examples parse_dateinfo_examples)
  have q: "(Some ?st, Some ?en, False) = (Some ?st, Some ?en, False)" by simp
  have qg: "(None :: time option, None :: time option, True) = (None, None, True)" by simp
  have i: "isoformat 739621 = ''2026-01-05''" using iso5 by simp
  have z: "zero_pad 2 18 = ''18''" "zero_pad 2 15 = ''15''" "zero_pad 2 19 = ''19''"
    "zero_pad 2 45 = ''45''"
    by (simp_all add: zero_pad_def str_nat.simps char_of_eq_iff)
  note T = build_events_single[OF h, where st = ?st and en = ?en and today = 739000 and la = 28
      and xs = "[]" and ys = "[]" and evs = "[]", unfolded Let_def]
  note G = build_events_single[OF hg, where st = ?st and en = ?en and today = 739000 and la = 28
      and xs = "[]" and ys = "[]" and evs = "[]", unfolded Let_def]
  have b: "build_events 739000 28 [?r]
       = Inr [\<lparr>ev_title = ''Yoga'', ev_url = None,
               ev_extendedProps =
                 \<lparr>p_dow = ''Di'', p_time = ''18:15-19:45 Uhr'', p_dateinfo = ''05.01.2026'',
                  p_location = ''Halle 1'', p_notes = [],
                  p_source = ''https://www.zssw.unibe.ch/usp/zms/search.php'',
                  p_tz = ''Europe/Zurich''\<rparr>,
               ev_start = ''2026-01-05T18:15:00'', ev_end = Some ''2026-01-05T19:45:00'',
               ev_allDay = False\<rparr>]"
    using T[THEN conjunct2, THEN conjunct1, THEN mp, OF q, THEN conjunct1]
    by (simp add: i z SEARCH_URL_def DEFAULT_TIMEZONE_def)
  have g: "build_events 739000 28 [?g]
       = Inr [\<lparr>ev_title = ''Yoga'', ev_url = None,
               ev_extendedProps =
                 \<lparr>p_dow = ''Di'', p_time = ''ganzer Tag'', p_dateinfo = ''05.01.2026'',
                  p_location = ''Halle 1'', p_notes = [],
                  p_source = ''https://www.zssw.unibe.ch/usp/zms/search.php'',
                  p_tz = ''Europe/Zurich''\<rparr>,
               ev_start = ''2026-01-05'', ev_end = None, ev_allDay = True\<rparr>]"
    using G[THEN conjunct1, THEN mp, OF qg, THEN conjunct1]
    by (simp add: i SEARCH_URL_def DEFAULT_TIMEZONE_def)
  have c: "DOW_MAP ''Di'' = Some 1" "weekday 739621 = 0"
    "parse_time_range ''18:15-19:45 Uhr'' = Inr (Some ?st, Some ?en, False)"
    "parse_time_range ''ganzer Tag'' = Inr (None, None, True)"
    "parse_dateinfo ''05.01.2026'' = Inr (Single 739621)"
    by (simp_all add: DOW_MAP_simps parse_time_range_examples parse_dateinfo_examples weekday_def)
  show ?thesis by (intro conjI c b g)
qed

subsection \<open>Rows that are skipped\<close>

lemma daterange_weekly_filter:
  assumes "valid_date start" "start + 6 \<le> MAXORDINAL" "end_d + 7 \<le> MAXORDINAL"
      and "0 \<le> w" "w < 7"
  shows "daterange_weekly start end_d w = Inr (filter (\<lambda>d. weekday d = w) [start..end_d])"
proof -
  define first where "first = start + (w - weekday start) mod 7"
  have f: "start \<le> first" "first < start + 7" by (simp_all add: first_def)
  have wf: "weekday first = w" unfolding first_def by (rule weekday_next[OF assms(4,5)])
  have s1: "1 \<le> start" using assms(1) by (simp add: valid_date_def)
  have nd: "next_date_for_weekday start w = Inr first"
    unfolding first_def by (rule next_date_for_weekday_ok[OF s1 assms(2)])
  have dw: "daterange_weekly start end_d w = weekly_loop first end_d []"
    using f by (simp add: daterange_weekly_def nd)
  have f1: "1 \<le> first" using f s1 by simp
  have before: "\<forall>x. start \<le> x \<and> x < first \<longrightarrow> weekday x \<noteq> w"
  proof (intro allI impI)
    fix x assume x: "start \<le> x \<and> x < first"
    then have "x < first" "first < x + 7" using f by auto
    then have "weekday first \<noteq> weekday x" by (rule weekday_neq)
    then show "weekday x \<noteq> w" using wf by simp
  qed
  have eq: "filter (\<lambda>d. weekday d = w) [start..end_d] = filter (\<lambda>d. weekday d = w) [first..end_d]"
    by (rule filter_weekday_before[OF f(1) before])
  show ?thesis
    using weekly_loop_filter[OF f1 assms(3) wf, of "[]"] by (simp add: dw eq)
qed

lemma add_event_unrecognized: "add_event r (None, None, False) d evs = evs"
  by (simp add: add_event_def)

lemma process_row_skip:
  assumes "DOW_MAP (dow r) = None
     \<or> (parse_time_range (time_str r) = Inr (None, None, False)
        \<and> parse_dateinfo (dateinfo r) = Inr di
        \<and> (case di of
              Single d \<Rightarrow> True
            | DateRange d1 d2 \<Rightarrow> d1 + 6 \<le> MAXORDINAL \<and> d2 + 7 \<le> MAXORDINAL
            | Phase \<Rightarrow> valid_date today \<and> 0 \<le> la \<and> today + la + 7 \<le> MAXORDINAL))"
  shows "process_row today la r evs = Inr evs"
proof (cases "DOW_MAP (dow r)")
  case None
  then show ?thesis by (simp add: process_row_def)
next
  case (Some w)
  then have tr: "parse_time_range (time_str r) = Inr (None, None, False)"
    and di: "parse_dateinfo (dateinfo r) = Inr di"
    and c: "case di of
              Single d \<Rightarrow> True
            | DateRange d1 d2 \<Rightarrow> d1 + 6 \<le> MAXORDINAL \<and> d2 + 7 \<le> MAXORDINAL
            | Phase \<Rightarrow> valid_date today \<and> 0 \<le> la \<and> today + la + 7 \<le> MAXORDINAL"
    using assms by auto
  have w: "0 \<le> w" "w < 7" using DOW_MAP_range[OF Some] by auto
  have "\<exists>ds. occurrences today la w di = Inr ds"
  proof (cases di)
    case (Single d)
    then show ?thesis by (simp add: occurrences_def)
  next
    case (DateRange d1 d2)
    then have "valid_date d1" using parse_dateinfo_valid(2) di by auto
    then show ?thesis using daterange_weekly_filter[of d1 d2 w] c DateRange w
      by (simp add: occurrences_def)
  next
    case Phase
    then show ?thesis using occurrences_phase[of today la w] c w by simp
  qed
  then obtain ds where "occurrences today la w di = Inr ds" ..
  then show ?thesis
    by (simp add: process_row_occurrences[OF Some tr di] add_event_unrecognized)
qed

text \<open>
  A row whose weekday code is not one of the seven tokens leaves the event list as it is
  and cannot raise. So does a row whose time text neither pattern recognizes, when its
  date text is one \<^verbatim>\<open>parse_dateinfo\<close> accepts and the dates of its expansion stay below
  9999-12-31. Taking such a row out of the input, wherever it stands, does not change
  what \<^verbatim>\<open>build_events\<close> returns.
\<close>

lemma build_events_skip_row:
  assumes "DOW_MAP (dow r) = None
     \<or> (parse_time_range (time_str r) = Inr (None, None, False)
        \<and> parse_dateinfo (dateinfo r) = Inr di
        \<and> (case di of
              Single d \<Rightarrow> True
            | DateRange d1 d2 \<Rightarrow> d1 + 6 \<le> MAXORDINAL \<and> d2 + 7 \<le> MAXORDINAL
            | Phase \<Rightarrow> valid_date today \<and> 0 \<le> la \<and> today + la + 7 \<le> MAXORDINAL))"
  shows "process_row today la r evs = Inr evs
       \<and> build_events today la (xs @ r # ys) = build_events today la (xs @ ys)"
proof -
  have p: "process_row today la r evs' = Inr evs'" for evs'
    by (rule process_row_skip[OF assms])
  have "rows_loop today la (xs @ r # ys) [] = rows_loop today la (xs @ ys) []"
    by (simp add: rows_loop_append p split: sum.splits)
  then show ?thesis using p by (simp add: build_events_def)
qed

text \<open>
  A time text with an hour above 23 is matched by \<^verbatim>\<open>TIME_RE\<close>; \<^verbatim>\<open>parse_time_range\<close>
  raises on it, and \<^verbatim>\<open>build_events\<close> with it, whatever the other rows are.
\<close>

lemma build_events_hour_out_of_range:
  "build_events 739621 28
     [\<lparr>title = ''Judo'', href = None, dow = ''Mo'', time_str = ''25:00-26:00 Uhr'',
       dateinfo = ''05.01.2026'', location = ''Halle 2'', rest = []\<rparr>,
      \<lparr>title = ''Yoga'', href = None, dow = ''Mo'', time_str = ''ganzer Tag'',
       dateinfo = ''05.01.2026'', location = ''Halle 1'', rest = []\<rparr>]
    = Inl ValueError"
proof -
  have "parse_time_range ''25:00-26:00 Uhr'' = Inl ValueError"
    using parse_time_range_shape[of "''25''" "''00''" "''26''" "''00''" "''Uhr''"]
    by (simp add: digit_simps int_of_digits_def lower_simps mk_time_def)
  then have "process_row 739621 28
          \<lparr>title = ''Judo'', href = None, dow = ''Mo'', time_str = ''25:00-26:00 Uhr'',
            dateinfo = ''05.01.2026'', location = ''Halle 2'', rest = []\<rparr> [] = Inl ValueError"
    by (simp add: process_row_def DOW_MAP_simps)
  then show ?thesis by (simp add: build_events_def)
qed

text \<open>
  C8. The skip of a row with an unrecognized time text is not reached when the date text
  of the row is not a calendar date. The row \<open>Judo\<close> below has the weekday code
  \<open>Mo\<close>, the time text \<open>nach Absprache\<close>, which \<^verbatim>\<open>parse_time_range\<close> does not
  recognize, and the date text \<open>31.02.2026\<close>. \<^verbatim>\<open>build_events\<close> calls
  \<^verbatim>\<open>parse_dateinfo\<close> before \<^verbatim>\<open>add_event\<close> looks at the time range, \<^verbatim>\<open>strptime\<close>
  raises \<^verbatim>\<open>ValueError\<close>, and \<^verbatim>\<open>build_events\<close> raises: the row is not skipped, and
  the row \<open>Yoga\<close>, which alone gives its all-day event, yields no event either.
\<close>

theorem build_events_unrecognized_time_raises:
  "parse_time_range ''nach Absprache'' = Inr (None, None, False)
   \<and> build_events 739621 28
        [\<lparr>title = ''Judo'', href = None, dow = ''Mo'', time_str = ''nach Absprache'',
          dateinfo = ''31.02.2026'', location = ''Halle 2'', rest = []\<rparr>,
         \<lparr>title = ''Yoga'', href = None, dow = ''Mo'', time_str = ''ganzer Tag'',
          dateinfo = ''05.01.2026'', location = ''Halle 1'', rest = []\<rparr>]
     = Inl ValueError
   \<and> build_events 739621 28
        [\<lparr>title = ''Yoga'', href = None, dow = ''Mo'', time_str = ''ganzer Tag'',
          dateinfo = ''05.01.2026'', location = ''Halle 1'', rest = []\<rparr>]
     = Inr [all_day_event
              \<lparr>title = ''Yoga'', href = None, dow = ''Mo'', time_str = ''ganzer Tag'',
                dateinfo = ''05.01.2026'', location = ''Halle 1'', rest = []\<rparr> 739621]"
proof -
  have "process_row 739621 28
          \<lparr>title = ''Judo'', href = None, dow = ''Mo'', time_str = ''nach Absprache'',
            dateinfo = ''31.02.2026'', location = ''Halle 2'', rest = []\<rparr> [] = Inl ValueError"
    by (simp add: process_row_def DOW_MAP_simps parse_time_range_examples parse_dateinfo_examples)
  then show ?thesis
    by (simp add: build_events_def process_row_all_day_single parse_time_range_examples)
qed

end
